theory Spec2Isabelle
  imports Complex_Main
begin

section \<open>The free store\<close>

text \<open>
  \<^verbatim>\<open>matrix_math.cpp\<close> keeps every matrix in a buffer obtained from \<^verbatim>\<open>new float[16]\<close>
  and reaches it through the pointer \<^verbatim>\<open>float* m\<close>. Two \<^verbatim>\<open>Matrix4*\<close> may denote the same
  object, so the buffers live in an explicit store: an address is the index of a block, a
  live block holds its elements, a block that was never allocated or has been deleted
  holds nothing. \<^verbatim>\<open>new\<close> appends a block (its address is fresh), \<^verbatim>\<open>delete[]\<close> kills one.

  The store is polymorphic in the element type \<open>'a\<close>; the methods below only ask for the
  operations they use (\<open>0\<close>, \<open>1\<close>, \<open>+\<close>, \<open>-\<close>, \<open>*\<close>) and for no law about them, so
  whatever is proved for every \<open>'a\<close> holds for \<^verbatim>\<open>float\<close>, whose arithmetic is given
  further down as the type \<open>float32\<close>.

  Reading or writing through a pointer to a dead block is undefined behaviour in C++. The
  model gives it no meaning (\<open>undefined\<close>), and every statement about a method assumes
  that the buffers it dereferences are live and hold 16 elements.
\<close>

type_synonym addr = nat

type_synonym 'a heap = "'a list option list"

definition buf :: "'a heap \<Rightarrow> addr \<Rightarrow> 'a list option" where
  "buf h a = (if a < length h then h ! a else None)"

text \<open>\<^verbatim>\<open>p[i]\<close> as an rvalue and \<^verbatim>\<open>p[i] = v\<close>.\<close>

definition load :: "'a heap \<Rightarrow> addr \<Rightarrow> nat \<Rightarrow> 'a" where
  "load h a i = (case buf h a of Some xs \<Rightarrow> xs ! i | None \<Rightarrow> undefined)"

definition store :: "'a heap \<Rightarrow> addr \<Rightarrow> nat \<Rightarrow> 'a \<Rightarrow> 'a heap" where
  "store h a i v = (case buf h a of Some xs \<Rightarrow> h[a := Some (xs[i := v])] | None \<Rightarrow> undefined)"

text \<open>
  \<^verbatim>\<open>new float[16]\<close> returns storage whose contents are indeterminate: they are the
  parameter \<open>junk\<close>, and the statements below hold for every \<open>junk\<close> of 16 elements.
\<close>

definition new_array :: "'a list \<Rightarrow> 'a heap \<Rightarrow> addr \<times> 'a heap" where
  "new_array junk h = (length h, h @ [Some junk])"

definition delete_array :: "addr \<Rightarrow> 'a heap \<Rightarrow> 'a heap" where
  "delete_array a h = h[a := None]"

section \<open>class Matrix4\<close>

text \<open>
  The object has one field, the pointer \<^verbatim>\<open>m\<close>. Each method takes \<^verbatim>\<open>this\<close>, its
  arguments and the store, and returns the store it leaves (with the result, when there
  is one). The \<^verbatim>\<open>for\<close> loops run over fixed ranges and are folds over \<open>[0..<n]\<close>; every
  array access of the source is a \<open>load\<close> or a \<open>store\<close> here, in the source's order.
\<close>

record Matrix4 =
  m :: addr

text \<open>
  \<^verbatim>\<open>for(int i=0; i<16; ++i) m[i] = 0.0f;  m[0] = m[5] = m[10] = m[15] = 1.0f;\<close>
  The chained assignment stores right to left.
\<close>

definition identity :: "Matrix4 \<Rightarrow> ('a::{zero,one}) heap \<Rightarrow> 'a heap" where
  "identity this h =
     (let h1 = fold (\<lambda>i h. store h (m this) i 0) [0..<16] h;
          h2 = store h1 (m this) 15 1;
          h3 = store h2 (m this) 10 1;
          h4 = store h3 (m this) 5 1
      in store h4 (m this) 0 1)"

text \<open>The constructor \<^verbatim>\<open>Matrix4() { m = new float[16]; identity(); }\<close> and the destructor.\<close>

definition Matrix4_new :: "'a list \<Rightarrow> ('a::{zero,one}) heap \<Rightarrow> Matrix4 \<times> 'a heap" where
  "Matrix4_new junk h =
     (let (p, h1) = new_array junk h;
          this = \<lparr>m = p\<rparr>
      in (this, identity this h1))"

definition Matrix4_delete :: "Matrix4 \<Rightarrow> 'a heap \<Rightarrow> 'a heap" where
  "Matrix4_delete this h = delete_array (m this) h"

text \<open>
  \<^verbatim>\<open>void multiply(Matrix4* other)\<close>: the three nested loops accumulate into \<^verbatim>\<open>temp\<close>
  (\<^verbatim>\<open>temp[r*4 + c] = 0.0f\<close>, then four times \<^verbatim>\<open>temp[r*4 + c] += m[r*4 + k] * other->m[k*4 + c]\<close>),
  the last loop copies \<^verbatim>\<open>temp\<close> back into \<^verbatim>\<open>m\<close>, and \<^verbatim>\<open>temp\<close> is deleted.
\<close>

definition multiply :: "'a list \<Rightarrow> Matrix4 \<Rightarrow> Matrix4 \<Rightarrow> ('a::{zero,plus,times}) heap \<Rightarrow> 'a heap" where
  "multiply junk this other h =
     (let (temp, h1) = new_array junk h;
          h2 = fold (\<lambda>r. fold (\<lambda>c h.
                  fold (\<lambda>k h. store h temp (r*4 + c)
                                 (load h temp (r*4 + c) + load h (m this) (r*4 + k) * load h (m other) (k*4 + c)))
                       [0..<4] (store h temp (r*4 + c) 0))
                [0..<4]) [0..<4] h1;
          h3 = fold (\<lambda>i h. store h (m this) i (load h temp i)) [0..<16] h2
      in delete_array temp h3)"

definition setTranslation :: "Matrix4 \<Rightarrow> 'a \<Rightarrow> 'a \<Rightarrow> 'a \<Rightarrow> 'a heap \<Rightarrow> 'a heap" where
  "setTranslation this x y z h =
     (let h1 = store h (m this) 12 x;
          h2 = store h1 (m this) 13 y
      in store h2 (m this) 14 z)"

text \<open>
  \<^verbatim>\<open>float getDeterminant()\<close> is not declared \<^verbatim>\<open>const\<close>, so it returns the store as well.
\<close>

definition getDeterminant :: "Matrix4 \<Rightarrow> ('a::{plus,minus,times}) heap \<Rightarrow> 'a \<times> 'a heap" where
  "getDeterminant this h =
     (let a = m this in
      (load h a 0 * (load h a 5 * load h a 10 - load h a 6 * load h a 9) -
       load h a 1 * (load h a 4 * load h a 10 - load h a 6 * load h a 8) +
       load h a 2 * (load h a 4 * load h a 9 - load h a 5 * load h a 8), h))"

section \<open>The arithmetic of \<^verbatim>\<open>float\<close>\<close>

text \<open>
  \<^verbatim>\<open>float\<close> is taken to be IEEE 754 binary32 with the default rounding (to nearest, ties
  to even), every operation rounded to binary32 on its own (no wider intermediate
  precision, no fused multiply-add).

  A finite value is \<open>Finite s mant e\<close>, standing for \<open>(-1)\<^sup>s * mant * 2\<^sup>e\<close>. The values of
  the format are those with \<open>mant < 2\<^sup>2\<^sup>4\<close> and \<open>-149 \<le> e \<le> 104\<close>, where \<open>e = -149\<close> unless
  \<open>2\<^sup>2\<^sup>3 \<le> mant\<close> (\<open>valid\<close> below): normal numbers have a 24-bit significand, subnormal
  numbers and the two zeros have the least exponent. All NaNs are one value.
\<close>

datatype float32 = Finite bool nat int | Infinity bool | NaN

text \<open>The number of binary digits of a natural number.\<close>

fun bitlen :: "nat \<Rightarrow> nat" where
  "bitlen n = (if n = 0 then 0 else Suc (bitlen (n div 2)))"

declare bitlen.simps [simp del]

text \<open>Division by a power of two, rounded to nearest, ties to even.\<close>

definition round_div :: "nat \<Rightarrow> nat \<Rightarrow> nat" where
  "round_div n d =
     (let q = n div d; r = n mod d
      in if d < 2 * r \<or> (2 * r = d \<and> odd q) then q + 1 else q)"

text \<open>
  The binary32 value nearest to \<open>(-1)\<^sup>s * mant * 2\<^sup>e\<close>: the exponent \<open>e1\<close> that leaves
  24 significant bits (not below \<open>-149\<close>), the significand at that exponent rounded, a
  significand rounded up to \<open>2\<^sup>2\<^sup>4\<close> renormalised, and infinity past the largest exponent.
\<close>

definition round_even :: "bool \<Rightarrow> nat \<Rightarrow> int \<Rightarrow> float32" where
  "round_even s mant e =
     (if mant = 0 then Finite s 0 (-149)
      else
        let e1 = max (-149) (e + int (bitlen mant) - 24);
            q = (if e1 \<le> e then mant * 2 ^ nat (e - e1) else round_div mant (2 ^ nat (e1 - e)));
            carry = (q = 2 ^ 24);
            q2 = (if carry then 2 ^ 23 else q);
            e2 = (if carry then e1 + 1 else e1)
        in if 104 < e2 then Infinity s else Finite s q2 e2)"

definition signed :: "bool \<Rightarrow> nat \<Rightarrow> int" where
  "signed s n = (if s then - int n else int n)"

fun fadd :: "float32 \<Rightarrow> float32 \<Rightarrow> float32" where
  "fadd NaN _ = NaN"
| "fadd _ NaN = NaN"
| "fadd (Infinity s) (Infinity t) = (if s = t then Infinity s else NaN)"
| "fadd (Infinity s) (Finite _ _ _) = Infinity s"
| "fadd (Finite _ _ _) (Infinity t) = Infinity t"
| "fadd (Finite s1 m1 e1) (Finite s2 m2 e2) =
     (let e = min e1 e2;
          v = signed s1 (m1 * 2 ^ nat (e1 - e)) + signed s2 (m2 * 2 ^ nat (e2 - e))
      in if v = 0 then Finite (s1 \<and> s2) 0 (-149) else round_even (v < 0) (nat \<bar>v\<bar>) e)"

fun fmul :: "float32 \<Rightarrow> float32 \<Rightarrow> float32" where
  "fmul NaN _ = NaN"
| "fmul _ NaN = NaN"
| "fmul (Infinity s) (Infinity t) = Infinity (s \<noteq> t)"
| "fmul (Infinity s) (Finite t m2 _) = (if m2 = 0 then NaN else Infinity (s \<noteq> t))"
| "fmul (Finite s m1 _) (Infinity t) = (if m1 = 0 then NaN else Infinity (s \<noteq> t))"
| "fmul (Finite s1 m1 e1) (Finite s2 m2 e2) = round_even (s1 \<noteq> s2) (m1 * m2) (e1 + e2)"

fun fneg :: "float32 \<Rightarrow> float32" where
  "fneg (Finite s m1 e) = Finite (\<not> s) m1 e"
| "fneg (Infinity s) = Infinity (\<not> s)"
| "fneg NaN = NaN"

instantiation float32 :: "{zero,one,plus,minus,uminus,times}"
begin
definition zero_float32 :: float32 where "0 = Finite False 0 (-149)"
definition one_float32 :: float32 where "1 = Finite False (2 ^ 23) (-23)"
definition plus_float32 :: "float32 \<Rightarrow> float32 \<Rightarrow> float32" where "a + b = fadd a b"
definition times_float32 :: "float32 \<Rightarrow> float32 \<Rightarrow> float32" where "a * b = fmul a b"
definition uminus_float32 :: "float32 \<Rightarrow> float32" where "- a = fneg a"
definition minus_float32 :: "float32 \<Rightarrow> float32 \<Rightarrow> float32" where "a - b = fadd a (fneg b)"
instance ..
end

text \<open>Literals: \<^verbatim>\<open>10.0f\<close> is \<open>f32_of_nat 10\<close>; \<^verbatim>\<open>0.0f\<close> and \<^verbatim>\<open>1.0f\<close> are \<open>0\<close> and \<open>1\<close>.\<close>

definition f32_of_nat :: "nat \<Rightarrow> float32" where
  "f32_of_nat n = round_even False n 0"


text \<open>
  The datatype has terms that are no binary32 value (a significand of 25 bits, say);
  \<open>valid\<close> singles out the values of the format. The operations above return valid
  values (\<open>fadd_valid\<close>, \<open>fmul_valid\<close> below); statements about arbitrary matrix elements
  assume that the elements are.
\<close>

fun valid :: "float32 \<Rightarrow> bool" where
  "valid (Finite s mant e) = (mant < 2 ^ 24 \<and> - 149 \<le> e \<and> e \<le> 104 \<and> (2 ^ 23 \<le> mant \<or> e = - 149))"
| "valid (Infinity s) = True"
| "valid NaN = True"

fun is_finite :: "float32 \<Rightarrow> bool" where
  "is_finite (Finite s mant e) = True"
| "is_finite (Infinity s) = False"
| "is_finite NaN = False"

text \<open>
  Two readings of a finite value that the statements below need: the zero with the sign
  of \<open>x\<close> (what \<open>0 * x\<close> is), and \<open>x\<close> with a negative zero replaced by the positive one
  (\<^verbatim>\<open>-0.0f == 0.0f\<close> holds in C++, the two are different values here).
\<close>

fun zero_like :: "float32 \<Rightarrow> float32" where
  "zero_like (Finite s mant e) = Finite s 0 (- 149)"
| "zero_like (Infinity s) = NaN"
| "zero_like NaN = NaN"

definition plus_zero :: "float32 \<Rightarrow> float32" where
  "plus_zero x = (if x = Finite True 0 (- 149) then Finite False 0 (- 149) else x)"

definition fin :: "float32 \<Rightarrow> bool" where
  "fin x = (is_finite x \<and> valid x)"

section \<open>main\<close>

text \<open>
  \<^verbatim>\<open>main\<close> builds two matrices, sets their translations, multiplies the first by the
  second, prints the determinant and deletes both. \<open>main_multiplied\<close> is \<^verbatim>\<open>main\<close> up to
  and including \<^verbatim>\<open>matA->multiply(matB)\<close>; \<open>main\<close> returns what is printed after
  \<^verbatim>\<open>"Det: "\<close>, the exit status and the final store.
\<close>

definition main_multiplied ::
  "float32 list \<Rightarrow> float32 list \<Rightarrow> float32 list \<Rightarrow> float32 heap \<Rightarrow> Matrix4 \<times> Matrix4 \<times> float32 heap" where
  "main_multiplied junkA junkB junkT h =
     (let (matA, h1) = Matrix4_new junkA h;
          (matB, h2) = Matrix4_new junkB h1;
          h3 = setTranslation matA (f32_of_nat 10) (f32_of_nat 5) 0 h2;
          h4 = setTranslation matB (f32_of_nat 2) (f32_of_nat 3) 1 h3;
          h5 = multiply junkT matA matB h4
      in (matA, matB, h5))"

definition main :: "float32 list \<Rightarrow> float32 list \<Rightarrow> float32 list \<Rightarrow> float32 heap \<Rightarrow> float32 \<times> int \<times> float32 heap" where
  "main junkA junkB junkT h =
     (let (matA, matB, h5) = main_multiplied junkA junkB junkT h;
          (det, h6) = getDeterminant matA h5;
          h7 = Matrix4_delete matA h6;
          h8 = Matrix4_delete matB h7
      in (det, 0, h8))"


section \<open>What the specification says the methods compute\<close>

text \<open>
  \<open>result[r][c] = sum over k of this[r][k] * other[k][c]\<close>, row-major: the sum is taken
  from \<open>0\<close> in the order \<open>k = 0, 1, 2, 3\<close>.
\<close>

definition row_col_sum :: "('a::{zero,plus,times}) list \<Rightarrow> 'a list \<Rightarrow> nat \<Rightarrow> nat \<Rightarrow> 'a" where
  "row_col_sum M N r c = foldl (\<lambda>s k. s + M ! (r*4 + k) * N ! (k*4 + c)) 0 [0..<4]"

definition product :: "('a::{zero,plus,times}) list \<Rightarrow> 'a list \<Rightarrow> 'a list" where
  "product M N = map (\<lambda>i. row_col_sum M N (i div 4) (i mod 4)) [0..<16]"

text \<open>
  The cofactor expansion along the first row of the 3x3 matrix with rows \<open>a b c\<close>,
  \<open>d e f\<close>, \<open>g h i\<close>: each entry of the row times the 2x2 determinant left when its row
  and column are struck out, with alternating signs.
\<close>

definition det2 :: "('a::{minus,times}) \<Rightarrow> 'a \<Rightarrow> 'a \<Rightarrow> 'a \<Rightarrow> 'a" where
  "det2 a b c d = a * d - b * c"

definition cofactor_det3 ::
  "('a::{plus,minus,times}) \<Rightarrow> 'a \<Rightarrow> 'a \<Rightarrow> 'a \<Rightarrow> 'a \<Rightarrow> 'a \<Rightarrow> 'a \<Rightarrow> 'a \<Rightarrow> 'a \<Rightarrow> 'a" where
  "cofactor_det3 a b c d e f g h i = a * det2 e f h i - b * det2 d f g i + c * det2 d e g h"

section \<open>The real value of a \<^verbatim>\<open>float\<close>\<close>

text \<open>
  The real number that a finite value stands for, \<open>(-1)\<^sup>s mant 2\<^sup>e\<close>. Infinities and NaN
  stand for no real number; they are given \<open>0\<close> and are never measured below.
\<close>

fun valof :: "float32 \<Rightarrow> real" where
  "valof (Finite s mant e) = (if s then - 1 else 1) * real mant * 2 powi e"
| "valof (Infinity s) = 0"
| "valof NaN = 0"

text \<open>The matrix of the values and the matrix of the magnitudes of the elements.\<close>

definition vals :: "float32 list \<Rightarrow> real list" where
  "vals M = map valof M"

definition mags :: "float32 list \<Rightarrow> real list" where
  "mags M = map (\<lambda>x. \<bar>valof x\<bar>) M"

text \<open>Half of the smallest positive value, the most that rounding loses where results underflow.\<close>

definition eta :: real where
  "eta = 1 / 2 ^ 150"

text \<open>
  \<open>approx x v M k B\<close>: the computed \<open>x\<close>, if finite, is the exact \<open>v\<close> up to \<open>k\<close> units in
  the last place of \<open>M\<close>, a bound of the magnitude of \<open>v\<close>, and up to \<open>B\<close>.
\<close>

definition approx :: "float32 \<Rightarrow> real \<Rightarrow> real \<Rightarrow> nat \<Rightarrow> real \<Rightarrow> bool" where
  "approx x v M k B \<longleftrightarrow>
     \<bar>v\<bar> \<le> M \<and> 0 \<le> B \<and> k \<le> 100 \<and>
     (is_finite x \<longrightarrow> \<bar>valof x - v\<bar> \<le> real k * M / 2 ^ 23 + B)"

text \<open>A finite value of magnitude at most \<open>K\<close>.\<close>

definition bounded :: "float32 \<Rightarrow> real \<Rightarrow> bool" where
  "bounded x K \<longleftrightarrow> is_finite x \<and> \<bar>valof x\<bar> \<le> K"




text \<open>
  The tolerance of the element in row \<open>r\<close> and column \<open>c\<close> of a product of three matrices:
  that element of the product of the matrices of magnitudes, times \<open>2\<^sup>-\<^sup>1\<^sup>8\<close> (thirty-two
  units in the last place), and a term for intermediate results that underflow.
\<close>

definition row_magnitude :: "float32 list \<Rightarrow> nat \<Rightarrow> real" where
  "row_magnitude A r = \<bar>valof (A ! (r*4 + 0))\<bar> + \<bar>valof (A ! (r*4 + 1))\<bar> + \<bar>valof (A ! (r*4 + 2))\<bar>
     + \<bar>valof (A ! (r*4 + 3))\<bar>"

definition col_magnitude :: "float32 list \<Rightarrow> nat \<Rightarrow> real" where
  "col_magnitude C c = \<bar>valof (C ! (0*4 + c))\<bar> + \<bar>valof (C ! (1*4 + c))\<bar> + \<bar>valof (C ! (2*4 + c))\<bar>
     + \<bar>valof (C ! (3*4 + c))\<bar>"

definition assoc_tolerance :: "float32 list \<Rightarrow> float32 list \<Rightarrow> float32 list \<Rightarrow> nat \<Rightarrow> nat \<Rightarrow> real" where
  "assoc_tolerance A B C r c =
     product (product (mags A) (mags B)) (mags C) ! (r*4 + c) / 2 ^ 18
     + (1 + row_magnitude A r + col_magnitude C c) / 2 ^ 139"

section \<open>Sample matrices\<close>

definition seq16 :: "float32 list" where
  "seq16 = map f32_of_nat [1, 2, 3, 4, 5, 6, 7, 8, 9, 10, 11, 12, 13, 14, 15, 16]"

definition rev16 :: "float32 list" where
  "rev16 = map f32_of_nat [16, 15, 14, 13, 12, 11, 10, 9, 8, 7, 6, 5, 4, 3, 2, 1]"

definition det25 :: "float32 list" where
  "det25 = map f32_of_nat [2, 0, 1, 9,  1, 3, 0, 9,  0, 1, 4, 9,  9, 9, 9, 9]"

definition det25' :: "float32 list" where
  "det25' = map f32_of_nat [2, 0, 1, 7,  1, 3, 0, 7,  0, 1, 4, 7,  8, 8, 8, 8]"

definition ident16 :: "float32 list" where
  "ident16 = [1,0,0,0, 0,1,0,0, 0,0,1,0, 0,0,0,1]"

definition inf16 :: "float32 list" where
  "inf16 = seq16[4 := Infinity False]"


definition big_diag16 :: "float32 list" where
  "big_diag16 = [Finite False 8388608 77, 0, 0, 0,
                 0, Finite False 8388608 77, 0, 0,
                 0, 0, Finite False 8388608 77, 0,
                 0, 0, 0, Finite False 8388608 77]"

definition small_diag16 :: "float32 list" where
  "small_diag16 = [Finite False 8388608 (- 123), 0, 0, 0,
                   0, Finite False 8388608 (- 123), 0, 0,
                   0, 0, Finite False 8388608 (- 123), 0,
                   0, 0, 0, Finite False 8388608 (- 123)]"



definition frac_a16 :: "float32 list" where
  "frac_a16 = [Finite False 13421773 (- 27), Finite False 13421773 (- 26), Finite False 10066330 (- 25),
                 Finite False 11744051 (- 24),
               0, 1, 0, 0,  0, 0, 1, 0,  0, 0, 0, 1]"

definition frac_b16 :: "float32 list" where
  "frac_b16 = [Finite False 10066330 (- 25), Finite False 13421773 (- 27), Finite False 11744051 (- 24),
                 Finite False 13421773 (- 26),
               Finite False 11744051 (- 24), Finite False 10066330 (- 25), Finite False 13421773 (- 26),
                 Finite False 13421773 (- 27),
               Finite False 13421773 (- 26), Finite False 11744051 (- 24), Finite False 13421773 (- 27),
                 Finite False 10066330 (- 25),
               Finite False 13421773 (- 27), Finite False 13421773 (- 26), Finite False 10066330 (- 25),
                 Finite False 11744051 (- 24)]"

definition frac_c16 :: "float32 list" where
  "frac_c16 = [Finite False 11744051 (- 24), 0, 0, 0,
               Finite False 13421773 (- 27), 1, 0, 0,
               Finite False 10066330 (- 25), 0, 1, 0,
               Finite False 13421773 (- 26), 0, 0, 1]"

definition twos16 :: "float32 list" where
  "twos16 = [f32_of_nat 2, 0, 0, 0,  0, f32_of_nat 2, 0, 0,  0, 0, f32_of_nat 2, 0,  0, 0, 0, f32_of_nat 2]"

definition threes16 :: "float32 list" where
  "threes16 = [f32_of_nat 3, 0, 0, 0,  0, f32_of_nat 3, 0, 0,  0, 0, f32_of_nat 3, 0,  0, 0, 0, f32_of_nat 3]"

definition junk16 :: "float32 list" where
  "junk16 = replicate 16 NaN"

section \<open>The loops of \<^verbatim>\<open>multiply\<close> on the buffer\<close>

text \<open>
  What the loops over \<^verbatim>\<open>temp\<close> do to the contents of that one block, for the proofs: the
  store drops out once \<^verbatim>\<open>temp\<close> is known to be a block of its own.
\<close>

definition cell_loop :: "('a::{zero,plus,times}) list \<Rightarrow> 'a list \<Rightarrow> nat \<Rightarrow> nat \<Rightarrow> 'a list \<Rightarrow> 'a list" where
  "cell_loop A B r c T =
     fold (\<lambda>k T. T[r*4 + c := T ! (r*4 + c) + A ! (r*4 + k) * B ! (k*4 + c)]) [0..<4] (T[r*4 + c := 0])"

definition temp_loops :: "('a::{zero,plus,times}) list \<Rightarrow> 'a list \<Rightarrow> 'a list \<Rightarrow> 'a list" where
  "temp_loops A B T = fold (\<lambda>r. fold (\<lambda>c. cell_loop A B r c) [0..<4]) [0..<4] T"


section \<open>Evaluating \<open>float32\<close> arithmetic\<close>

lemma bitlen_0 [simp]: "bitlen 0 = 0" by (simp add: bitlen.simps)
lemma bitlen_1 [simp]: "bitlen 1 = 1" by (simp add: bitlen.simps)
lemma bitlen_Suc0 [simp]: "bitlen (Suc 0) = 1" by (simp add: bitlen.simps)
lemma bitlen_Bit0 [simp]: "bitlen (numeral (Num.Bit0 k)) = Suc (bitlen (numeral k))"
  by (subst bitlen.simps) (simp add: numeral_Bit0_div_2 del: One_nat_def)
lemma bitlen_Bit1 [simp]: "bitlen (numeral (Num.Bit1 k)) = Suc (bitlen (numeral k))"
  by (subst bitlen.simps) (simp add: numeral_Bit1_div_2 del: One_nat_def)

lemmas f32_eval = round_even_def round_div_def signed_def f32_of_nat_def Let_def
  zero_float32_def one_float32_def plus_float32_def times_float32_def minus_float32_def uminus_float32_def

text \<open>
  Some results that binary32 arithmetic is known to give, as a check of the definitions:
  \<^verbatim>\<open>16777216.0f + 1.0f\<close> is \<^verbatim>\<open>16777216.0f\<close> and \<^verbatim>\<open>16777218.0f + 1.0f\<close> is
  \<^verbatim>\<open>16777220.0f\<close> (ties to even); \<^verbatim>\<open>0.1f + 0.2f\<close> is \<^verbatim>\<open>0.3f\<close> (\<open>13421773 * 2\<^sup>-\<^sup>2\<^sup>7\<close> plus
  \<open>13421773 * 2\<^sup>-\<^sup>2\<^sup>6\<close> is \<open>10066330 * 2\<^sup>-\<^sup>2\<^sup>5\<close>) and \<^verbatim>\<open>0.1f * 0.1f\<close> is \<open>10737419 * 2\<^sup>-\<^sup>3\<^sup>0\<close>;
  the largest finite value overflows to infinity from half a unit in the last place
  on; the least subnormal number halved is \<open>0\<close>, three times it halved is twice it;
  the signs of zeros; the invalid operations.
\<close>

lemma known_values:
  "f32_of_nat 16777216 + 1 = f32_of_nat 16777216"
  "f32_of_nat 16777217 = f32_of_nat 16777216"
  "f32_of_nat 16777218 + 1 = f32_of_nat 16777220"
  "Finite False 13421773 (- 27) + Finite False 13421773 (- 26) = Finite False 10066330 (- 25)"
  "Finite False 13421773 (- 27) * Finite False 13421773 (- 27) = Finite False 10737419 (- 30)"
  "Finite False 16777215 104 + Finite False 16777215 104 = Infinity False"
  "Finite False 16777215 104 + Finite False 8388608 80 = Infinity False"
  "Finite False 16777215 104 + Finite False 8388608 79 = Finite False 16777215 104"
  "Finite False 1 (- 149) * Finite False 8388608 (- 24) = 0"
  "Finite False 3 (- 149) * Finite False 8388608 (- 24) = Finite False 2 (- 149)"
  "Finite True 1 (- 149) * Finite False 1 (- 149) = - 0"
  "(1::float32) - 1 = 0" "- (1::float32) + 1 = 0" "- (0::float32) - 0 = - 0"
  "(0::float32) * Infinity False = NaN" "Infinity False - Infinity False = NaN"
  by (simp_all add: f32_eval)


section \<open>Rounding a value that needs none\<close>

text \<open>
  \<open>round_even\<close> depends on the value \<open>mant * 2\<^sup>e\<close> only, not on how it is split into
  significand and exponent, and it returns a value of the format as it is.
\<close>

lemma bitlen_le: "bitlen n \<le> k \<longleftrightarrow> n < 2 ^ k"
proof (induction k arbitrary: n)
  case 0
  show ?case by (subst bitlen.simps) simp
next
  case (Suc k)
  have "n div 2 < 2 ^ k \<longleftrightarrow> n < 2 * 2 ^ k" by linarith
  with Suc [of "n div 2"] show ?case
    by (subst bitlen.simps) auto
qed

lemma bitlen_eq: "0 < k \<Longrightarrow> 2 ^ (k - 1) \<le> n \<Longrightarrow> n < 2 ^ k \<Longrightarrow> bitlen n = k"
  using bitlen_le [of n k] bitlen_le [of n "k - 1"] by (cases k) auto

lemma bitlen_double: "0 < n \<Longrightarrow> bitlen (2 * n) = Suc (bitlen n)"
  by (subst bitlen.simps) simp

lemma bitlen_shift: "0 < n \<Longrightarrow> bitlen (n * 2 ^ k) = bitlen n + k"
proof (induction k)
  case 0
  then show ?case by simp
next
  case (Suc k)
  have "n * 2 ^ Suc k = 2 * (n * 2 ^ k)" by simp
  then have "bitlen (n * 2 ^ Suc k) = Suc (bitlen (n * 2 ^ k))"
    using bitlen_double [of "n * 2 ^ k"] Suc.prems by (simp only: ) simp
  with Suc show ?case by simp
qed

lemma bitlen_bounds:
  assumes "0 < n"
  shows "2 ^ (bitlen n - 1) \<le> n" "n < 2 ^ bitlen n" "0 < bitlen n"
proof -
  show "n < 2 ^ bitlen n" using bitlen_le [of n "bitlen n"] by simp
  show pos: "0 < bitlen n" using assms by (subst bitlen.simps) simp
  have "\<not> bitlen n \<le> bitlen n - 1" using pos by simp
  then show "2 ^ (bitlen n - 1) \<le> n" using bitlen_le [of n "bitlen n - 1"] by simp
qed

lemma round_div_exact: "0 < d \<Longrightarrow> round_div (n * d) d = n"
  by (simp add: round_div_def)

lemma round_div_scale: "0 < c \<Longrightarrow> round_div (n * c) (d * c) = round_div n d"
proof -
  assume c: "0 < c"
  have "d * c < 2 * (n mod d * c) \<longleftrightarrow> d < 2 * (n mod d)"
    using c by (metis mult.assoc mult.commute mult_less_cancel2)
  moreover have "2 * (n mod d * c) = d * c \<longleftrightarrow> 2 * (n mod d) = d"
    using c by (metis mult.assoc mult.commute mult_cancel2 less_numeral_extra(3))
  ultimately show ?thesis
    using c by (simp add: round_div_def mod_mult_mult2 Let_def)
qed

lemma round_even_scale:
  assumes "0 < n"
  shows "round_even s (n * 2 ^ k) (e - int k) = round_even s n e"
proof -
  define e1 where "e1 = max (- 149) (e + int (bitlen n) - 24)"
  have e1: "max (- 149) (e - int k + int (bitlen (n * 2 ^ k)) - 24) = e1"
    using assms by (simp add: bitlen_shift e1_def)
  have q: "(if e1 \<le> e - int k then n * 2 ^ k * 2 ^ nat (e - int k - e1)
            else round_div (n * 2 ^ k) (2 ^ nat (e1 - (e - int k))))
         = (if e1 \<le> e then n * 2 ^ nat (e - e1) else round_div n (2 ^ nat (e1 - e)))"
  proof -
    consider "e1 \<le> e - int k" | "e - int k < e1" "e1 \<le> e" | "e < e1" by linarith
    then show ?thesis
    proof cases
      case 1
      then have "nat (e - e1) = k + nat (e - int k - e1)" by linarith
      with 1 show ?thesis by (simp add: power_add mult.assoc)
    next
      case 2
      define j where "j = nat (e1 - (e - int k))"
      define i where "i = nat (e - e1)"
      from 2 have k: "k = i + j" unfolding i_def j_def by linarith
      have "round_div ((n * 2 ^ i) * 2 ^ j) (2 ^ j) = n * 2 ^ i"
        by (rule round_div_exact) simp
      then have "round_div (n * 2 ^ k) (2 ^ j) = n * 2 ^ i"
        by (simp add: k power_add mult.assoc)
      with 2 show ?thesis by (simp add: i_def j_def)
    next
      case 3
      define i where "i = nat (e1 - e)"
      from 3 have j: "nat (e1 - (e - int k)) = i + k" unfolding i_def by linarith
      have "round_div (n * 2 ^ k) (2 ^ i * 2 ^ k) = round_div n (2 ^ i)"
        by (rule round_div_scale) simp
      with 3 show ?thesis by (simp add: j power_add i_def)
    qed
  qed
  have "round_even s (n * 2 ^ k) (e - int k) =
      (let q = (if e1 \<le> e - int k then n * 2 ^ k * 2 ^ nat (e - int k - e1)
                else round_div (n * 2 ^ k) (2 ^ nat (e1 - (e - int k))));
           carry = (q = 2 ^ 24);
           q2 = (if carry then 2 ^ 23 else q);
           e2 = (if carry then e1 + 1 else e1)
       in if 104 < e2 then Infinity s else Finite s q2 e2)"
    using assms unfolding round_even_def [of s "n * 2 ^ k"] e1 by (simp add: Let_def)
  also have "\<dots> = round_even s n e"
    using assms unfolding q round_even_def [of s n] e1_def [symmetric] by (simp add: Let_def)
  finally show ?thesis .
qed

lemma round_even_valid_id:
  assumes "valid (Finite s mant e)" "0 < mant"
  shows "round_even s mant e = Finite s mant e"
proof -
  have e1: "max (- 149) (e + int (bitlen mant) - 24) = e"
  proof (cases "2 ^ 23 \<le> mant")
    case True
    then have "bitlen mant = 24" using assms bitlen_eq [of 24 mant] by simp
    then show ?thesis using assms by simp
  next
    case False
    then have "bitlen mant \<le> 23" using bitlen_le [of mant 23] by simp
    then show ?thesis using assms False by simp
  qed
  show ?thesis using assms unfolding round_even_def Let_def e1 by simp
qed

section \<open>Laws of \<open>0\<close> and \<open>1\<close> on finite values\<close>

lemma one_times:
  assumes "valid (Finite s mant e)"
  shows "1 * Finite s mant e = Finite s mant e"
proof (cases "mant = 0")
  case True
  with assms show ?thesis by (simp add: f32_eval)
next
  case False
  have "round_even s (mant * 2 ^ 23) (e - int 23) = round_even s mant e"
    using False by (intro round_even_scale) simp
  then show ?thesis
    using round_even_valid_id [OF assms] False
    by (simp add: times_float32_def one_float32_def mult.commute)
qed

lemma times_one:
  assumes "valid (Finite s mant e)"
  shows "Finite s mant e * 1 = Finite s mant e"
proof (cases "mant = 0")
  case True
  with assms show ?thesis by (simp add: f32_eval)
next
  case False
  have "round_even s (mant * 2 ^ 23) (e - int 23) = round_even s mant e"
    using False by (intro round_even_scale) simp
  then show ?thesis
    using round_even_valid_id [OF assms] False
    by (simp add: times_float32_def one_float32_def)
qed

lemma zero_times: "0 * Finite s mant e = Finite s 0 (- 149)"
  by (simp add: f32_eval)

lemma times_zero: "Finite s mant e * 0 = Finite s 0 (- 149)"
  by (simp add: f32_eval)

lemma zero_plus_zero: "0 + Finite s 0 (- 149) = 0"
  by (simp add: f32_eval)

lemma nat_abs_signed: "nat \<bar>signed s n\<bar> = n"
  by (simp add: signed_def)

lemma signed_neg: "signed s n < 0 \<longleftrightarrow> s \<and> 0 < n"
  by (simp add: signed_def)

lemma signed_zero: "signed s n = 0 \<longleftrightarrow> n = 0"
  by (simp add: signed_def)

lemma signed_0: "signed s 0 = 0"
  by (simp add: signed_def)

lemma fadd_zero_right:
  assumes "valid (Finite s mant e)" "0 < mant"
  shows "fadd (Finite s mant e) (Finite t 0 (- 149)) = Finite s mant e"
proof -
  from assms have mn: "min e (- 149) = - 149" by simp
  from assms have k: "- 149 = e - int (nat (e + 149))" by simp
  have "round_even s (mant * 2 ^ nat (e + 149)) (- 149) = round_even s mant e"
    by (subst k, rule round_even_scale) (use assms in simp)
  then show ?thesis
    using round_even_valid_id [OF assms] assms(2)
    by (simp add: mn Let_def nat_abs_signed signed_neg signed_zero signed_0)
qed

lemma fadd_zero_left:
  assumes "valid (Finite s mant e)" "0 < mant"
  shows "fadd (Finite t 0 (- 149)) (Finite s mant e) = Finite s mant e"
proof -
  from assms have mn: "min (- 149) e = - 149" by simp
  from assms have k: "- 149 = e - int (nat (e + 149))" by simp
  have "round_even s (mant * 2 ^ nat (e + 149)) (- 149) = round_even s mant e"
    by (subst k, rule round_even_scale) (use assms in simp)
  then show ?thesis
    using round_even_valid_id [OF assms] assms(2)
    by (simp add: mn Let_def nat_abs_signed signed_neg signed_zero signed_0)
qed

lemma zero_plus:
  assumes "valid (Finite s mant e)"
  shows "0 + Finite s mant e = plus_zero (Finite s mant e)"
proof (cases "mant = 0")
  case True
  with assms show ?thesis by (auto simp: f32_eval plus_zero_def)
next
  case False
  then show ?thesis
    using fadd_zero_left [OF assms, of False]
    by (simp add: plus_float32_def zero_float32_def plus_zero_def)
qed

lemma plus_zero_plus:
  assumes "valid (Finite s mant e)"
  shows "plus_zero (Finite s mant e) + Finite t 0 (- 149) = plus_zero (Finite s mant e)"
proof (cases "mant = 0")
  case True
  with assms show ?thesis by (auto simp: f32_eval plus_zero_def)
next
  case False
  then show ?thesis
    using fadd_zero_right [OF assms, of t]
    by (simp add: plus_float32_def plus_zero_def)
qed


lemma fin_cases:
  assumes "fin x"
  obtains s mant e where "x = Finite s mant e" "valid (Finite s mant e)"
  using assms by (cases x) (auto simp: fin_def)

lemma fin_laws:
  assumes "fin x"
  shows "1 * x = x" "x * 1 = x" "0 * x = zero_like x" "x * 0 = zero_like x"
    "0 + zero_like x = 0" "0 + x = plus_zero x"
  using assms
  by (auto elim!: fin_cases simp: one_times times_one zero_times times_zero zero_plus_zero zero_plus)

lemma fin_plus_zero_like:
  assumes "fin x" "fin y"
  shows "plus_zero x + zero_like y = plus_zero x"
proof -
  from assms(1) obtain s mant e where x: "x = Finite s mant e" "valid (Finite s mant e)"
    by (rule fin_cases)
  from assms(2) obtain t mant' e' where y: "y = Finite t mant' e'"
    by (rule fin_cases)
  show ?thesis unfolding x y using plus_zero_plus [OF x(2)] by simp
qed

section \<open>The operations stay within the format\<close>

text \<open>
  Whatever it is given, \<open>round_even\<close> returns a value of the format, and so do addition,
  subtraction and multiplication.
\<close>

lemma round_div_le:
  assumes "0 < d" "n < (k + 1) * d"
  shows "round_div n d \<le> k + 1"
proof -
  have "n div d < k + 1" using assms by (simp add: less_mult_imp_div_less)
  then show ?thesis by (simp add: round_div_def Let_def)
qed

lemma round_div_ge:
  assumes "0 < d" "k * d \<le> n"
  shows "k \<le> round_div n d"
proof -
  have "k \<le> n div d" using assms by (simp add: less_eq_div_iff_mult_less_eq)
  then show ?thesis by (simp add: round_div_def Let_def)
qed

lemma round_even_valid: "valid (round_even s mant e)"
proof (cases "mant = 0")
  case True
  then show ?thesis by (simp add: round_even_def)
next
  case False
  define b where "b = bitlen mant"
  define e1 where "e1 = max (- 149) (e + int b - 24)"
  define q where "q = (if e1 \<le> e then mant * 2 ^ nat (e - e1) else round_div mant (2 ^ nat (e1 - e)))"
  from False have pos: "0 < mant" by simp
  have lo: "2 ^ (b - 1) \<le> mant" and hi: "mant < 2 ^ b" and b: "0 < b"
    using bitlen_bounds [OF pos] by (simp_all add: b_def)
  have e1: "- 149 \<le> e1" "e + int b - 24 \<le> e1" by (simp_all add: e1_def)
  have q_le: "q \<le> 2 ^ 24"
  proof (cases "e1 \<le> e")
    case True
    with e1(2) have "b + nat (e - e1) \<le> 24" by linarith
    then have p: "(2::nat) ^ (b + nat (e - e1)) \<le> 2 ^ 24" by (intro power_increasing) simp_all
    have "mant * 2 ^ nat (e - e1) \<le> 2 ^ b * 2 ^ nat (e - e1)"
      using hi by (intro mult_right_mono) simp_all
    also have "\<dots> = 2 ^ (b + nat (e - e1))" by (simp only: power_add)
    also note p
    finally show ?thesis using True by (simp add: q_def)
  next
    case False
    with e1(2) have "b \<le> 24 + nat (e1 - e)" by linarith
    then have "(2::nat) ^ b \<le> 2 ^ (24 + nat (e1 - e))" by (intro power_increasing) simp_all
    with hi have "mant < (2 ^ 24 - 1 + 1) * 2 ^ nat (e1 - e)" by (simp add: power_add)
    then have "round_div mant (2 ^ nat (e1 - e)) \<le> 2 ^ 24 - 1 + 1"
      by (intro round_div_le) simp_all
    with False show ?thesis by (simp add: q_def)
  qed
  have q_ge: "2 ^ 23 \<le> q" if "e1 \<noteq> - 149"
  proof -
    from that have eq: "e1 = e + int b - 24" by (simp add: e1_def max_def split: if_splits)
    show ?thesis
    proof (cases "e1 \<le> e")
      case True
      with eq b have "23 = (b - 1) + nat (e - e1)" by linarith
      then have "(2::nat) ^ 23 = 2 ^ (b - 1) * 2 ^ nat (e - e1)" by (simp only: power_add)
      also have "\<dots> \<le> mant * 2 ^ nat (e - e1)" using lo by simp
      finally show ?thesis using True by (simp add: q_def)
    next
      case False
      with eq b have "b - 1 = 23 + nat (e1 - e)" by linarith
      then have "(2::nat) ^ (b - 1) = 2 ^ 23 * 2 ^ nat (e1 - e)" by (simp only: power_add)
      with lo have "2 ^ 23 * 2 ^ nat (e1 - e) \<le> mant" by simp
      then have "2 ^ 23 \<le> round_div mant (2 ^ nat (e1 - e))"
        by (intro round_div_ge) simp_all
      with False show ?thesis by (simp add: q_def)
    qed
  qed
  have r: "round_even s mant e =
      (if 104 < (if q = 2 ^ 24 then e1 + 1 else e1) then Infinity s
       else Finite s (if q = 2 ^ 24 then 2 ^ 23 else q) (if q = 2 ^ 24 then e1 + 1 else e1))"
    using False unfolding round_even_def b_def [symmetric] e1_def [symmetric] Let_def q_def [symmetric]
    by simp
  show ?thesis
  proof (cases "q = 2 ^ 24")
    case True
    then show ?thesis using e1(1) unfolding r by simp
  next
    case False
    with q_le have "q < 2 ^ 24" by simp
    then show ?thesis using e1(1) q_ge False unfolding r by auto
  qed
qed

lemma fadd_valid: "valid (fadd x y)"
  by (cases x; cases y) (simp_all add: Let_def round_even_valid)

lemma fmul_valid: "valid (fmul x y)"
  by (cases x; cases y) (simp_all add: round_even_valid)

lemma fneg_valid: "valid x \<Longrightarrow> valid (fneg x)"
  by (cases x) simp_all

section \<open>The store under the loops\<close>

lemma upt4: "[0..<4] = [0,1,2,3]" by (simp add: upt_rec)
lemma upt16: "[0..<16] = [0,1,2,3,4,5,6,7,8,9,10,11,12,13,14,15]" by (simp add: upt_rec)

lemma list16: 
  assumes "length xs = 16"
  shows "xs = [xs!0, xs!1, xs!2, xs!3, xs!4, xs!5, xs!6, xs!7, xs!8, xs!9, xs!10, xs!11, xs!12, xs!13, xs!14, xs!15]"
proof -
  have "xs = map ((!) xs) [0..<16]" using map_nth [of xs] assms by simp
  then show ?thesis unfolding upt16 by simp
qed

lemma buf_live: "buf h a = Some xs \<Longrightarrow> a < length h \<and> h ! a = Some xs"
  by (simp add: buf_def split: if_splits)

lemma store_live: "buf h a = Some xs \<Longrightarrow> store h a i v = h[a := Some (xs[i := v])]"
  by (simp add: store_def)

lemma load_live: "buf h a = Some xs \<Longrightarrow> load h a i = xs ! i"
  by (simp add: load_def)

lemma buf_update: "a < length h \<Longrightarrow> buf (h[a := v]) b = (if b = a then v else buf h b)"
  by (simp add: buf_def)

lemma update_live: "buf h a = Some xs \<Longrightarrow> h[a := Some xs] = h"
  using buf_live [of h a xs] list_update_id [of h a] by simp

lemma fold_store:
  "buf h a = Some xs \<Longrightarrow>
   fold (\<lambda>i h. store h a (f i) (g i)) is h = h[a := Some (fold (\<lambda>i xs. xs[f i := g i]) is xs)]"
proof (induction "is" arbitrary: h xs)
  case Nil
  then show ?case by (simp add: update_live)
next
  case (Cons i "is")
  from Cons.prems have live: "a < length h" using buf_live by fast
  have "buf (h[a := Some (xs[f i := g i])]) a = Some (xs[f i := g i])"
    using live by (simp add: buf_update)
  from Cons.IH [OF this] show ?case
    using Cons.prems by (simp add: store_live)
qed

lemma k_loop:
  assumes "buf h t = Some T" "buf h a = Some A" "buf h b = Some B" "t \<noteq> a" "t \<noteq> b"
  shows "fold (\<lambda>k h. store h t idx (load h t idx + load h a (i k) * load h b (j k))) ks h
       = h[t := Some (fold (\<lambda>k T. T[idx := T ! idx + A ! (i k) * B ! (j k)]) ks T)]"
  using assms
proof (induction ks arbitrary: h T)
  case Nil
  then show ?case by (simp add: update_live)
next
  case (Cons k ks)
  let ?T = "T[idx := T ! idx + A ! (i k) * B ! (j k)]"
  let ?h = "h[t := Some ?T]"
  from Cons.prems have live: "t < length h" using buf_live by fast
  have step: "store h t idx (load h t idx + load h a (i k) * load h b (j k)) = ?h"
    using Cons.prems by (simp add: store_live load_live)
  have "buf ?h t = Some ?T" "buf ?h a = Some A" "buf ?h b = Some B"
    using live Cons.prems by (simp_all add: buf_update)
  from Cons.IH [OF this Cons.prems(4,5)] show ?case
    by (simp add: step)
qed


lemma cell_step:
  assumes "buf h t = Some T" "buf h a = Some A" "buf h b = Some B" "t \<noteq> a" "t \<noteq> b"
  shows "fold (\<lambda>k h. store h t (r*4 + c) (load h t (r*4 + c) + load h a (r*4 + k) * load h b (k*4 + c)))
              [0..<4] (store h t (r*4 + c) 0)
       = h[t := Some (cell_loop A B r c T)]"
proof -
  let ?T = "T[r*4 + c := 0]"
  let ?h = "h[t := Some ?T]"
  from assms have live: "t < length h" using buf_live by fast
  have "buf ?h t = Some ?T" "buf ?h a = Some A" "buf ?h b = Some B"
    using live assms by (simp_all add: buf_update)
  from k_loop [OF this assms(4,5), of "r*4 + c" "\<lambda>k. r*4 + k" "\<lambda>k. k*4 + c" "[0..<4]"]
  show ?thesis using assms(1) by (simp add: store_live cell_loop_def)
qed

lemma c_loop:
  assumes "buf h t = Some T" "buf h a = Some A" "buf h b = Some B" "t \<noteq> a" "t \<noteq> b"
  shows "fold (\<lambda>c h. fold (\<lambda>k h. store h t (r*4 + c)
                 (load h t (r*4 + c) + load h a (r*4 + k) * load h b (k*4 + c)))
              [0..<4] (store h t (r*4 + c) 0)) cs h
       = h[t := Some (fold (\<lambda>c. cell_loop A B r c) cs T)]"
  using assms
proof (induction cs arbitrary: h T)
  case Nil
  then show ?case by (simp add: update_live)
next
  case (Cons c cs)
  let ?T = "cell_loop A B r c T"
  let ?h = "h[t := Some ?T]"
  from Cons.prems have live: "t < length h" using buf_live by fast
  have "buf ?h t = Some ?T" "buf ?h a = Some A" "buf ?h b = Some B"
    using live Cons.prems by (simp_all add: buf_update)
  from Cons.IH [OF this Cons.prems(4,5)] show ?case
    by (simp add: cell_step [OF Cons.prems])
qed

lemma r_loop:
  assumes "buf h t = Some T" "buf h a = Some A" "buf h b = Some B" "t \<noteq> a" "t \<noteq> b"
  shows "fold (\<lambda>r. fold (\<lambda>c h. fold (\<lambda>k h. store h t (r*4 + c)
                 (load h t (r*4 + c) + load h a (r*4 + k) * load h b (k*4 + c)))
              [0..<4] (store h t (r*4 + c) 0)) [0..<4]) rs h
       = h[t := Some (fold (\<lambda>r. fold (\<lambda>c. cell_loop A B r c) [0..<4]) rs T)]"
  using assms
proof (induction rs arbitrary: h T)
  case Nil
  then show ?case by (simp add: update_live)
next
  case (Cons r rs)
  let ?T = "fold (\<lambda>c. cell_loop A B r c) [0..<4] T"
  let ?h = "h[t := Some ?T]"
  from Cons.prems have live: "t < length h" using buf_live by fast
  have "buf ?h t = Some ?T" "buf ?h a = Some A" "buf ?h b = Some B"
    using live Cons.prems by (simp_all add: buf_update)
  from Cons.IH [OF this Cons.prems(4,5)] show ?case
    by (simp add: c_loop [OF Cons.prems])
qed

lemma temp_loops_product:
  assumes "length T = 16"
  shows "temp_loops A B T = product A B"
proof -
  obtain x0 x1 x2 x3 x4 x5 x6 x7 x8 x9 x10 x11 x12 x13 x14 x15 where
    T: "T = [x0,x1,x2,x3,x4,x5,x6,x7,x8,x9,x10,x11,x12,x13,x14,x15]"
    using list16 [OF assms] by blast
  show ?thesis
    unfolding T temp_loops_def cell_loop_def product_def row_col_sum_def upt4 upt16
    by simp
qed


lemma copy_loop:
  assumes "buf h t = Some T" "buf h a = Some A" "t \<noteq> a"
  shows "fold (\<lambda>i h. store h a i (load h t i)) is h = h[a := Some (fold (\<lambda>i A. A[i := T ! i]) is A)]"
  using assms
proof (induction "is" arbitrary: h A)
  case Nil
  then show ?case by (simp add: update_live)
next
  case (Cons i "is")
  let ?A = "A[i := T ! i]"
  let ?h = "h[a := Some ?A]"
  from Cons.prems have live: "a < length h" using buf_live by fast
  have "buf ?h t = Some T" "buf ?h a = Some ?A"
    using live Cons.prems by (simp_all add: buf_update)
  from Cons.IH [OF this Cons.prems(3)] show ?case
    using Cons.prems by (simp add: store_live load_live)
qed

lemma copy16:
  assumes "length A = 16" "length T = 16"
  shows "fold (\<lambda>i A. A[i := T ! i]) [0..<16] A = T"
proof -
  obtain x0 x1 x2 x3 x4 x5 x6 x7 x8 x9 x10 x11 x12 x13 x14 x15 where
    A: "A = [x0,x1,x2,x3,x4,x5,x6,x7,x8,x9,x10,x11,x12,x13,x14,x15]"
    using list16 [OF assms(1)] by blast
  have "fold (\<lambda>i A. A[i := T ! i]) [0..<16] A
      = [T!0, T!1, T!2, T!3, T!4, T!5, T!6, T!7, T!8, T!9, T!10, T!11, T!12, T!13, T!14, T!15]"
    unfolding A upt16 by simp
  then show ?thesis using list16 [OF assms(2)] by simp
qed

lemma length_product: "length (product A B) = 16"
  by (simp add: product_def)

lemma multiply_heap:
  assumes "buf h (m this) = Some A" "buf h (m other) = Some B" "length A = 16" "length junk = 16"
  shows "multiply junk this other h = h[m this := Some (product A B)] @ [None]"
proof -
  let ?t = "length h"
  let ?h1 = "h @ [Some junk]"
  from assms have a: "m this < length h" and b: "m other < length h"
    using buf_live by fast+
  have t: "buf ?h1 ?t = Some junk" by (simp add: buf_def)
  have A: "buf ?h1 (m this) = Some A" using assms(1) a by (simp add: buf_def nth_append)
  have B: "buf ?h1 (m other) = Some B" using assms(2) b by (simp add: buf_def nth_append)
  have ne: "?t \<noteq> m this" "?t \<noteq> m other" using a b by simp_all
  let ?h2 = "?h1[?t := Some (product A B)]"
  have h2: "fold (\<lambda>r. fold (\<lambda>c h. fold (\<lambda>k h. store h ?t (r*4 + c)
                 (load h ?t (r*4 + c) + load h (m this) (r*4 + k) * load h (m other) (k*4 + c)))
              [0..<4] (store h ?t (r*4 + c) 0)) [0..<4]) [0..<4] ?h1 = ?h2"
    using r_loop [OF t A B ne, of "[0..<4]"] temp_loops_product [OF assms(4), of A B]
    by (simp add: temp_loops_def)
  have t2: "buf ?h2 ?t = Some (product A B)" by (simp add: buf_def)
  have A2: "buf ?h2 (m this) = Some A" using assms(1) a by (simp add: buf_def nth_append)
  have "fold (\<lambda>i h. store h (m this) i (load h ?t i)) [0..<16] ?h2
      = ?h2[m this := Some (product A B)]"
    using copy_loop [OF t2 A2 ne(1), of "[0..<16]"] copy16 [OF assms(3) length_product, of A B]
    by simp
  then have "multiply junk this other h = delete_array ?t (?h2[m this := Some (product A B)])"
    by (simp add: multiply_def new_array_def h2 Let_def)
  also have "\<dots> = h[m this := Some (product A B)] @ [None]"
    using a by (simp add: delete_array_def list_update_append)
  finally show ?thesis .
qed

lemma product_nth:
  assumes "r < 4" "c < 4"
  shows "product A B ! (r*4 + c) = row_col_sum A B r c"
proof -
  have "r*4 + c < 16" using assms by simp
  then have "product A B ! (r*4 + c) = row_col_sum A B ((r*4 + c) div 4) ((r*4 + c) mod 4)"
    by (simp add: product_def)
  then show ?thesis using assms by simp
qed

lemma row_col_sum_unfold:
  "row_col_sum A B r c = 0 + A ! (r*4 + 0) * B ! (0*4 + c) + A ! (r*4 + 1) * B ! (1*4 + c)
       + A ! (r*4 + 2) * B ! (2*4 + c) + A ! (r*4 + 3) * B ! (3*4 + c)"
  by (simp add: row_col_sum_def upt4)

lemma multiply_result:
  assumes "buf h (m this) = Some A" "buf h (m other) = Some B" "length A = 16" "length junk = 16"
  shows "buf (multiply junk this other h) x = (if x = m this then Some (product A B) else if x = length h then None else buf h x)"
proof -
  from assms have a: "m this < length h" using buf_live by fast
  show ?thesis unfolding multiply_heap [OF assms]
    using a by (auto simp: buf_def nth_append)
qed

text \<open>Two successive calls on the same receiver, and a call on the result of another.\<close>

lemma two_multiplies:
  assumes "buf h (m x) = Some X" "buf h (m y) = Some Y" "buf h (m z) = Some Z"
    and "length X = 16" "length Y = 16" "length j1 = 16" "length j2 = 16"
  shows "m z \<noteq> m x \<Longrightarrow> buf (multiply j2 x z (multiply j1 x y h)) (m x) = Some (product (product X Y) Z)"
    and "m x \<noteq> m y \<Longrightarrow> buf (multiply j2 x y (multiply j1 y z h)) (m x) = Some (product X (product Y Z))"
proof -
  from assms(1,2,3) have l: "m x < length h" "m y < length h" "m z < length h"
    using buf_live by fast+
  note r1 = multiply_result [OF assms(1,2,4,6)]
  note r2 = multiply_result [OF assms(2,3,5,6)]
  {
    assume ne: "m z \<noteq> m x"
    have "buf (multiply j1 x y h) (m x) = Some (product X Y)" by (simp add: r1)
    moreover have "buf (multiply j1 x y h) (m z) = Some Z" using ne l assms(3) by (simp add: r1)
    ultimately show "buf (multiply j2 x z (multiply j1 x y h)) (m x) = Some (product (product X Y) Z)"
      using multiply_result [of "multiply j1 x y h" x "product X Y" z Z j2 "m x"] assms(7)
      by (simp add: length_product)
  }
  {
    assume ne: "m x \<noteq> m y"
    have "buf (multiply j1 y z h) (m y) = Some (product Y Z)" by (simp add: r2)
    moreover have "buf (multiply j1 y z h) (m x) = Some X" using ne l assms(1) by (simp add: r2)
    ultimately show "buf (multiply j2 x y (multiply j1 y z h)) (m x) = Some (product X (product Y Z))"
      using multiply_result [of "multiply j1 y z h" x X y "product Y Z" j2 "m x"] assms(4,7)
      by simp
  }
qed

section \<open>Exact arithmetic\<close>

text \<open>
  Where the arithmetic is that of a commutative ring, as on the real numbers, the product
  of matrices is associative and the expansion of a block with two equal rows is zero.
\<close>

lemma product_assoc:
  fixes A B C :: "'a::comm_semiring_0 list"
  assumes "length A = 16" "length B = 16" "length C = 16"
  shows "product (product A B) C = product A (product B C)"
proof -
  obtain a0 a1 a2 a3 a4 a5 a6 a7 a8 a9 a10 a11 a12 a13 a14 a15 where
    A: "A = [a0,a1,a2,a3,a4,a5,a6,a7,a8,a9,a10,a11,a12,a13,a14,a15]"
    using list16 [OF assms(1)] by blast
  obtain b0 b1 b2 b3 b4 b5 b6 b7 b8 b9 b10 b11 b12 b13 b14 b15 where
    B: "B = [b0,b1,b2,b3,b4,b5,b6,b7,b8,b9,b10,b11,b12,b13,b14,b15]"
    using list16 [OF assms(2)] by blast
  obtain c0 c1 c2 c3 c4 c5 c6 c7 c8 c9 c10 c11 c12 c13 c14 c15 where
    C: "C = [c0,c1,c2,c3,c4,c5,c6,c7,c8,c9,c10,c11,c12,c13,c14,c15]"
    using list16 [OF assms(3)] by blast
  show ?thesis
    unfolding A B C product_def row_col_sum_def upt4 upt16
    by (simp add: algebra_simps)
qed


section \<open>The error of one operation\<close>

text \<open>
  A finite result of \<open>+\<close>, \<open>-\<close> or \<open>*\<close> has finite operands, and differs from the exact
  result on their values by at most half a unit in the last place: \<open>2\<^sup>-\<^sup>2\<^sup>4\<close> of its
  magnitude, or \<open>2\<^sup>-\<^sup>1\<^sup>5\<^sup>0\<close> where it underflows.
\<close>

lemma two_powi_add: "(2::real) powi (a + b) = 2 powi a * 2 powi b"
  by (rule power_int_add) simp

lemma two_powi_nat: "0 \<le> a \<Longrightarrow> (2::real) powi a = 2 ^ nat a"
  by (simp add: power_int_def)

lemma two_powi_split:
  assumes "e1 \<le> e"
  shows "(2::real) ^ nat (e - e1) * 2 powi e1 = 2 powi e"
proof -
  have "(2::real) powi e = 2 powi ((e - e1) + e1)" by simp
  also have "\<dots> = 2 powi (e - e1) * 2 powi e1" by (rule two_powi_add)
  also have "2 powi (e - e1) = (2::real) ^ nat (e - e1)" using assms by (simp add: two_powi_nat)
  finally show ?thesis by simp
qed

lemma round_div_error:
  assumes "0 < d"
  shows "\<bar>real (round_div n d) * real d - real n\<bar> \<le> real d / 2"
proof -
  define q where "q = n div d"
  define r where "r = n mod d"
  have n: "n = q * d + r" by (simp add: q_def r_def)
  have r: "r < d" using assms by (simp add: r_def)
  show ?thesis
  proof (cases "d < 2 * r \<or> (2 * r = d \<and> odd q)")
    case True
    then have rd: "round_div n d = q + 1" by (auto simp: round_div_def q_def r_def Let_def)
    from True have "d \<le> 2 * r" by auto
    then have "real d \<le> 2 * real r" by (metis of_nat_le_iff of_nat_mult of_nat_numeral)
    moreover have "real r < real d" using r by simp
    moreover have "real (q + 1) * real d - real n = real d - real r"
      by (subst n) (simp add: algebra_simps)
    ultimately show ?thesis unfolding rd by simp
  next
    case False
    then have rd: "round_div n d = q" by (auto simp: round_div_def q_def r_def Let_def)
    from False have "2 * r \<le> d" by auto
    then have "2 * real r \<le> real d" by (metis of_nat_le_iff of_nat_mult of_nat_numeral)
    moreover have "real q * real d - real n = - real r"
      by (subst n) (simp add: algebra_simps)
    ultimately show ?thesis unfolding rd by simp
  qed
qed

lemma round_even_error:
  assumes "round_even s n e = Finite s' q' e'"
  shows "s' = s"
    and "\<bar>real q' * 2 powi e' - real n * 2 powi e\<bar> \<le> real n * 2 powi e / 2 ^ 24 + 1 / 2 ^ 150"
proof -
  have nn: "0 \<le> real n * 2 powi e / 2 ^ 24" by simp
  have eta: "(0::real) \<le> 1 / 2 ^ 150" by simp
  show "s' = s" using assms by (auto simp: round_even_def Let_def split: if_splits)
  show "\<bar>real q' * 2 powi e' - real n * 2 powi e\<bar> \<le> real n * 2 powi e / 2 ^ 24 + 1 / 2 ^ 150"
  proof (cases "n = 0")
    case True
    with assms show ?thesis by (simp add: round_even_def)
  next
    case False
    define b where "b = bitlen n"
    define e1 where "e1 = max (- 149) (e + int b - 24)"
    define q where "q = (if e1 \<le> e then n * 2 ^ nat (e - e1) else round_div n (2 ^ nat (e1 - e)))"
    from False have pos: "0 < n" by simp
    have lo: "2 ^ (b - 1) \<le> n" and b: "0 < b"
      using bitlen_bounds [OF pos] by (simp_all add: b_def)
    have r: "round_even s n e =
        (if 104 < (if q = 2 ^ 24 then e1 + 1 else e1) then Infinity s
         else Finite s (if q = 2 ^ 24 then 2 ^ 23 else q) (if q = 2 ^ 24 then e1 + 1 else e1))"
      using False unfolding round_even_def b_def [symmetric] e1_def [symmetric] Let_def q_def [symmetric]
      by simp
    from assms have q': "q' = (if q = 2 ^ 24 then 2 ^ 23 else q)"
      and e': "e' = (if q = 2 ^ 24 then e1 + 1 else e1)"
      unfolding r by (simp_all split: if_splits)
    have val: "real q' * 2 powi e' = real q * 2 powi e1"
    proof (cases "q = 2 ^ 24")
      case True
      have "(2::real) powi (e1 + 1) = 2 powi e1 * 2" using two_powi_add [of e1 1] by simp
      then show ?thesis using True by (simp add: q' e')
    next
      case False
      then show ?thesis by (simp add: q' e')
    qed
    show ?thesis
    proof (cases "e1 \<le> e")
      case True
      then have "real q * 2 powi e1 = real n * (2 ^ nat (e - e1) * 2 powi e1)"
        by (simp add: q_def)
      also have "\<dots> = real n * 2 powi e" by (simp only: two_powi_split [OF True])
      finally show ?thesis using nn by (simp add: val)
    next
      case False
      define d :: nat where "d = 2 ^ nat (e1 - e)"
      have d: "0 < d" by (simp add: d_def)
      from False have le: "e \<le> e1" by simp
      have dp: "real d * 2 powi e = 2 powi e1"
        using two_powi_split [OF le] by (simp add: d_def)
      have "real q * 2 powi e1 - real n * 2 powi e = (real q * real d - real n) * 2 powi e"
        by (simp add: dp [symmetric] algebra_simps)
      then have "\<bar>real q * 2 powi e1 - real n * 2 powi e\<bar> = \<bar>real q * real d - real n\<bar> * 2 powi e"
        by (simp add: abs_mult)
      also have "\<dots> \<le> real d / 2 * 2 powi e"
        using round_div_error [OF d, of n] False
        by (intro mult_right_mono) (simp_all add: q_def d_def)
      also have "\<dots> = 2 powi e1 / 2" by (simp add: dp [symmetric])
      finally have err: "\<bar>real q * 2 powi e1 - real n * 2 powi e\<bar> \<le> 2 powi e1 / 2" .
      show ?thesis
      proof (cases "e1 = - 149")
        case True
        have "(2::real) powi (- 149) / 2 = 1 / 2 ^ 150"
          by (simp add: power_int_minus_divide)
        with err nn eta show ?thesis unfolding val True by linarith
      next
        case False
        then have eq: "e1 = (int b - 24) + e" by (simp add: e1_def max_def split: if_splits)
        have "(2::real) powi e1 = 2 powi (int b - 24) * 2 powi e"
          unfolding eq by (rule two_powi_add)
        moreover have "(2::real) powi (int b - 24) * 2 ^ 24 = 2 ^ b"
          using two_powi_add [of "int b - 24" 24] by simp
        then have "(2::real) powi (int b - 24) = 2 ^ b / 2 ^ 24" by (simp add: field_simps)
        ultimately have "(2::real) powi e1 / 2 = (2 ^ b / 2) * 2 powi e / 2 ^ 24" by simp
        also have "(2::real) ^ b / 2 = 2 ^ (b - 1)" using b by (cases b) simp_all
        also have "(2::real) ^ (b - 1) * 2 powi e / 2 ^ 24 \<le> real n * 2 powi e / 2 ^ 24"
        proof -
          have "(2::real) ^ (b - 1) \<le> real n" using lo by (metis of_nat_le_iff of_nat_numeral of_nat_power)
          then show ?thesis by (intro divide_right_mono mult_right_mono) simp_all
        qed
        finally show ?thesis using err eta unfolding val by linarith
      qed
    qed
  qed
qed

lemma round_even_valof:
  assumes "is_finite (round_even s n e)"
  shows "\<bar>valof (round_even s n e) - (if s then - 1 else 1) * real n * 2 powi e\<bar>
           \<le> real n * 2 powi e / 2 ^ 24 + 1 / 2 ^ 150"
proof -
  from assms obtain s' q' e' where r: "round_even s n e = Finite s' q' e'"
    by (cases "round_even s n e") simp_all
  note err = round_even_error [OF r]
  have "valof (round_even s n e) - (if s then - 1 else 1) * real n * 2 powi e
      = (if s then - 1 else 1) * (real q' * 2 powi e' - real n * 2 powi e)"
    by (simp add: r err(1) algebra_simps)
  then have "\<bar>valof (round_even s n e) - (if s then - 1 else 1) * real n * 2 powi e\<bar>
      = \<bar>real q' * 2 powi e' - real n * 2 powi e\<bar>"
    by (simp add: abs_mult)
  with err(2) show ?thesis by simp
qed

lemma valof_signed: "(if s then - 1 else 1) * real n = real_of_int (signed s n)"
  by (simp add: signed_def)

lemma fmul_finite: "is_finite (fmul x y) \<Longrightarrow> is_finite x \<and> is_finite y"
  by (cases x; cases y) (simp_all split: if_splits)

lemma fadd_finite: "is_finite (fadd x y) \<Longrightarrow> is_finite x \<and> is_finite y"
  by (cases x; cases y) (simp_all split: if_splits)

lemma fneg_finite: "is_finite (fneg x) = is_finite x"
  by (cases x) simp_all

lemma valof_fneg: "valof (fneg x) = - valof x"
  by (cases x) simp_all

lemma fmul_error:
  assumes "is_finite (fmul x y)"
  shows "\<bar>valof (fmul x y) - valof x * valof y\<bar> \<le> \<bar>valof x * valof y\<bar> / 2 ^ 24 + 1 / 2 ^ 150"
proof -
  from fmul_finite [OF assms] obtain s1 m1 e1 s2 m2 e2 where
    x: "x = Finite s1 m1 e1" and y: "y = Finite s2 m2 e2"
    by (cases x; cases y) simp_all
  have f: "is_finite (round_even (s1 \<noteq> s2) (m1 * m2) (e1 + e2))"
    using assms by (simp add: x y)
  have v: "valof x * valof y = (if s1 \<noteq> s2 then - 1 else 1) * real (m1 * m2) * 2 powi (e1 + e2)"
    by (simp add: x y two_powi_add)
  have a: "\<bar>valof x * valof y\<bar> = real (m1 * m2) * 2 powi (e1 + e2)"
    unfolding v by (simp add: abs_mult)
  show ?thesis
    unfolding a unfolding v using round_even_valof [OF f] by (simp add: x y)
qed

lemma fadd_error:
  assumes "is_finite (fadd x y)"
  shows "\<bar>valof (fadd x y) - (valof x + valof y)\<bar> \<le> \<bar>valof x + valof y\<bar> / 2 ^ 24 + 1 / 2 ^ 150"
proof -
  from fadd_finite [OF assms] obtain s1 m1 e1 s2 m2 e2 where
    x: "x = Finite s1 m1 e1" and y: "y = Finite s2 m2 e2"
    by (cases x; cases y) simp_all
  define e where "e = min e1 e2"
  define v where "v = signed s1 (m1 * 2 ^ nat (e1 - e)) + signed s2 (m2 * 2 ^ nat (e2 - e))"
  have le: "e \<le> e1" "e \<le> e2" by (simp_all add: e_def)
  have f: "fadd x y = (if v = 0 then Finite (s1 \<and> s2) 0 (- 149) else round_even (v < 0) (nat \<bar>v\<bar>) e)"
    by (simp add: x y Let_def e_def v_def)
  have "valof x = real_of_int (signed s1 (m1 * 2 ^ nat (e1 - e))) * 2 powi e"
    unfolding x valof.simps valof_signed [symmetric]
    by (simp add: two_powi_split [OF le(1), symmetric])
  moreover have "valof y = real_of_int (signed s2 (m2 * 2 ^ nat (e2 - e))) * 2 powi e"
    unfolding y valof.simps valof_signed [symmetric]
    by (simp add: two_powi_split [OF le(2), symmetric])
  ultimately have sum: "valof x + valof y = real_of_int v * 2 powi e"
    by (simp add: v_def algebra_simps)
  show ?thesis
  proof (cases "v = 0")
    case True
    then show ?thesis by (simp add: f sum)
  next
    case False
    then have fin: "is_finite (round_even (v < 0) (nat \<bar>v\<bar>) e)" using assms by (simp add: f)
    have "(if v < 0 then - 1 else 1) * real (nat \<bar>v\<bar>) = real_of_int v" by simp
    then have ex: "(if v < 0 then - 1 else 1) * real (nat \<bar>v\<bar>) * 2 powi e = valof x + valof y"
      by (simp only: sum)
    have "real (nat \<bar>v\<bar>) = \<bar>real_of_int v\<bar>" by simp
    then have ab: "real (nat \<bar>v\<bar>) * 2 powi e = \<bar>valof x + valof y\<bar>"
      by (simp add: sum abs_mult)
    show ?thesis
      using round_even_valof [OF fin] False unfolding ex ab by (simp add: f)
  qed
qed

lemma times_error:
  assumes "is_finite (x * y)"
  shows "is_finite x" "is_finite y"
    "\<bar>valof (x * y) - valof x * valof y\<bar> \<le> \<bar>valof x * valof y\<bar> / 2 ^ 24 + 1 / 2 ^ 150"
  using assms fmul_finite [of x y] fmul_error [of x y] by (simp_all add: times_float32_def)

lemma plus_error:
  assumes "is_finite (x + y)"
  shows "is_finite x" "is_finite y"
    "\<bar>valof (x + y) - (valof x + valof y)\<bar> \<le> \<bar>valof x + valof y\<bar> / 2 ^ 24 + 1 / 2 ^ 150"
  using assms fadd_finite [of x y] fadd_error [of x y] by (simp_all add: plus_float32_def)


section \<open>The error of an expression\<close>

lemma eta_nonneg: "0 \<le> eta"
  by (simp add: eta_def)

lemma approxI:
  assumes "\<bar>v\<bar> \<le> M" "0 \<le> B" "k \<le> 100"
    and "is_finite x \<Longrightarrow> \<bar>valof x - v\<bar> \<le> real k * M / 2 ^ 23 + B"
  shows "approx x v M k B"
  using assms by (simp add: approx_def)

lemma approx_input: "approx x (valof x) \<bar>valof x\<bar> 0 0"
  by (simp add: approx_def)

lemma approx_weaken:
  assumes "approx x v M j B" "j \<le> k" "k \<le> 100" "B \<le> B'"
  shows "approx x v M k B'"
proof (rule approxI)
  from assms(1) have M: "\<bar>v\<bar> \<le> M" and B: "0 \<le> B" by (simp_all add: approx_def)
  show "\<bar>v\<bar> \<le> M" by fact
  show "0 \<le> B'" using B assms(4) by simp
  show "k \<le> 100" by fact
  assume "is_finite x"
  with assms(1) have "\<bar>valof x - v\<bar> \<le> real j * M / 2 ^ 23 + B" by (simp add: approx_def)
  moreover have "0 \<le> M" using M by simp
  then have "real j * M / 2 ^ 23 \<le> real k * M / 2 ^ 23"
    using assms(2) by (intro divide_right_mono mult_right_mono) simp_all
  ultimately show "\<bar>valof x - v\<bar> \<le> real k * M / 2 ^ 23 + B'" using assms(4) by linarith
qed

text \<open>The step shared by all operations, on real numbers.\<close>

lemma error_step:
  fixes r x v M B :: real
  assumes r: "\<bar>r - x\<bar> \<le> \<bar>x\<bar> / 2 ^ 24 + 1 / 2 ^ 150"
    and x: "\<bar>x - v\<bar> \<le> real k * M / 2 ^ 23 + B"
    and v: "\<bar>v\<bar> \<le> M" and B: "0 \<le> B" and k: "k \<le> 100"
  shows "\<bar>r - v\<bar> \<le> real (Suc k) * M / 2 ^ 23 + (2 * B + eta)"
proof -
  have M: "0 \<le> M" using v by simp
  have kk: "real k / 2 ^ 23 \<le> 1" using k by simp
  have "real k * M / 2 ^ 23 = (real k / 2 ^ 23) * M" by simp
  also have "\<dots> \<le> 1 * M" using kk M by (intro mult_right_mono) simp_all
  finally have kM: "real k * M / 2 ^ 23 \<le> M" by simp
  have "\<bar>x\<bar> \<le> \<bar>v\<bar> + \<bar>x - v\<bar>" by simp
  also have "\<dots> \<le> M + (M + B)" using v x kM by linarith
  finally have ax: "\<bar>x\<bar> \<le> 2 * M + B" by simp
  then have "\<bar>x\<bar> / 2 ^ 24 \<le> (2 * M + B) / 2 ^ 24" by (intro divide_right_mono) simp_all
  also have "\<dots> = M / 2 ^ 23 + B / 2 ^ 24" by (simp add: add_divide_distrib)
  also have "\<dots> \<le> M / 2 ^ 23 + B"
  proof -
    have "B / 2 ^ 24 \<le> B / 1" using B by (intro divide_left_mono) simp_all
    then show ?thesis by simp
  qed
  finally have ux: "\<bar>x\<bar> / 2 ^ 24 \<le> M / 2 ^ 23 + B" .
  have "\<bar>r - v\<bar> \<le> \<bar>r - x\<bar> + \<bar>x - v\<bar>" by simp
  also have "\<dots> \<le> (M / 2 ^ 23 + B + eta) + (real k * M / 2 ^ 23 + B)"
    using r x ux unfolding eta_def by linarith
  also have "\<dots> = real (Suc k) * M / 2 ^ 23 + (2 * B + eta)"
    by (simp add: algebra_simps add_divide_distrib)
  finally show ?thesis .
qed

lemma approx_times_left:
  assumes "approx y v M k B" "k < 100"
  shows "approx (x * y) (valof x * v) (\<bar>valof x\<bar> * M) (Suc k) (2 * (\<bar>valof x\<bar> * B) + eta)"
proof (rule approxI)
  from assms(1) have M: "\<bar>v\<bar> \<le> M" and B: "0 \<le> B" by (simp_all add: approx_def)
  show v: "\<bar>valof x * v\<bar> \<le> \<bar>valof x\<bar> * M"
    using M by (simp add: abs_mult mult_left_mono)
  show "0 \<le> 2 * (\<bar>valof x\<bar> * B) + eta" using B eta_nonneg by simp
  show "Suc k \<le> 100" using assms(2) by simp
  assume f: "is_finite (x * y)"
  note e = times_error [OF f]
  from assms(1) e(2) have "\<bar>valof y - v\<bar> \<le> real k * M / 2 ^ 23 + B" by (simp add: approx_def)
  then have "\<bar>valof x\<bar> * \<bar>valof y - v\<bar> \<le> \<bar>valof x\<bar> * (real k * M / 2 ^ 23 + B)"
    by (intro mult_left_mono) simp_all
  moreover have "\<bar>valof x * valof y - valof x * v\<bar> = \<bar>valof x\<bar> * \<bar>valof y - v\<bar>"
    by (simp add: abs_mult flip: right_diff_distrib)
  moreover have "\<bar>valof x\<bar> * (real k * M / 2 ^ 23 + B) = real k * (\<bar>valof x\<bar> * M) / 2 ^ 23 + \<bar>valof x\<bar> * B"
    by (simp add: algebra_simps)
  ultimately have "\<bar>valof x * valof y - valof x * v\<bar> \<le> real k * (\<bar>valof x\<bar> * M) / 2 ^ 23 + \<bar>valof x\<bar> * B"
    by (simp only: )
  from error_step [OF e(3) this v]
  show "\<bar>valof (x * y) - valof x * v\<bar>
      \<le> real (Suc k) * (\<bar>valof x\<bar> * M) / 2 ^ 23 + (2 * (\<bar>valof x\<bar> * B) + eta)"
    using B assms(2) by simp
qed

lemma approx_times_right:
  assumes "approx y v M k B" "k < 100"
  shows "approx (y * x) (v * valof x) (M * \<bar>valof x\<bar>) (Suc k) (2 * (B * \<bar>valof x\<bar>) + eta)"
proof (rule approxI)
  from assms(1) have M: "\<bar>v\<bar> \<le> M" and B: "0 \<le> B" by (simp_all add: approx_def)
  show v: "\<bar>v * valof x\<bar> \<le> M * \<bar>valof x\<bar>"
    using M by (simp add: abs_mult mult_right_mono)
  show "0 \<le> 2 * (B * \<bar>valof x\<bar>) + eta" using B eta_nonneg by simp
  show "Suc k \<le> 100" using assms(2) by simp
  assume f: "is_finite (y * x)"
  note e = times_error [OF f]
  from assms(1) e(1) have "\<bar>valof y - v\<bar> \<le> real k * M / 2 ^ 23 + B" by (simp add: approx_def)
  then have "\<bar>valof y - v\<bar> * \<bar>valof x\<bar> \<le> (real k * M / 2 ^ 23 + B) * \<bar>valof x\<bar>"
    by (intro mult_right_mono) simp_all
  moreover have "\<bar>valof y * valof x - v * valof x\<bar> = \<bar>valof y - v\<bar> * \<bar>valof x\<bar>"
    by (simp add: abs_mult flip: left_diff_distrib)
  moreover have "(real k * M / 2 ^ 23 + B) * \<bar>valof x\<bar> = real k * (M * \<bar>valof x\<bar>) / 2 ^ 23 + B * \<bar>valof x\<bar>"
    by (simp add: algebra_simps)
  ultimately have "\<bar>valof y * valof x - v * valof x\<bar> \<le> real k * (M * \<bar>valof x\<bar>) / 2 ^ 23 + B * \<bar>valof x\<bar>"
    by (simp only: )
  from error_step [OF e(3) this v]
  show "\<bar>valof (y * x) - v * valof x\<bar>
      \<le> real (Suc k) * (M * \<bar>valof x\<bar>) / 2 ^ 23 + (2 * (B * \<bar>valof x\<bar>) + eta)"
    using B assms(2) by simp
qed

lemma approx_plus:
  assumes "approx x vx Mx k Bx" "approx y vy My k By" "k < 100"
  shows "approx (x + y) (vx + vy) (Mx + My) (Suc k) (2 * (Bx + By) + eta)"
proof (rule approxI)
  from assms(1,2) have M: "\<bar>vx\<bar> \<le> Mx" "\<bar>vy\<bar> \<le> My" and B: "0 \<le> Bx" "0 \<le> By"
    by (simp_all add: approx_def)
  show v: "\<bar>vx + vy\<bar> \<le> Mx + My" using M by linarith
  show "0 \<le> 2 * (Bx + By) + eta" using B eta_nonneg by simp
  show "Suc k \<le> 100" using assms(3) by simp
  assume f: "is_finite (x + y)"
  note e = plus_error [OF f]
  from assms(1,2) e(1,2) have "\<bar>valof x - vx\<bar> \<le> real k * Mx / 2 ^ 23 + Bx"
    "\<bar>valof y - vy\<bar> \<le> real k * My / 2 ^ 23 + By" by (simp_all add: approx_def)
  moreover have "real k * (Mx + My) / 2 ^ 23 = real k * Mx / 2 ^ 23 + real k * My / 2 ^ 23"
    by (simp add: algebra_simps add_divide_distrib)
  ultimately have "\<bar>(valof x + valof y) - (vx + vy)\<bar> \<le> real k * (Mx + My) / 2 ^ 23 + (Bx + By)"
    by linarith
  from error_step [OF e(3) this v]
  show "\<bar>valof (x + y) - (vx + vy)\<bar> \<le> real (Suc k) * (Mx + My) / 2 ^ 23 + (2 * (Bx + By) + eta)"
    using B assms(3) by simp
qed


section \<open>The error of the determinant\<close>

lemma approx_product: "approx (x * y) (valof x * valof y) (\<bar>valof x\<bar> * \<bar>valof y\<bar>) 1 eta"
  using approx_times_left [OF approx_input, of x y] by simp















section \<open>The error of a product of three matrices\<close>

lemma approx_zero: "k \<le> 100 \<Longrightarrow> approx 0 0 0 k 0"
  by (simp add: approx_def zero_float32_def)

lemma approx_sum4:
  assumes t: "approx t0 w0 N0 j D0" "approx t1 w1 N1 j D1" "approx t2 w2 N2 j D2" "approx t3 w3 N3 j D3"
    and j: "j + 4 \<le> 100"
  shows "approx (0 + t0 + t1 + t2 + t3) (0 + w0 + w1 + w2 + w3) (0 + N0 + N1 + N2 + N3) (j + 4)
     (16 * D0 + 8 * D1 + 4 * D2 + 2 * D3 + 15 * eta)"
proof -
  have z: "approx 0 0 0 j 0" using j by (simp add: approx_zero)
  have s1: "approx (0 + t0) (0 + w0) (0 + N0) (j + 1) (2 * D0 + eta)"
    using approx_plus [OF z t(1)] j by simp
  have t1: "approx t1 w1 N1 (j + 1) D1"
    by (rule approx_weaken [OF t(2)]) (use j in simp_all)
  have s2: "approx (0 + t0 + t1) (0 + w0 + w1) (0 + N0 + N1) (j + 2) (4 * D0 + 2 * D1 + 3 * eta)"
    by (rule approx_weaken [OF approx_plus [OF s1 t1]]) (use j in \<open>simp_all add: algebra_simps\<close>)
  have t2: "approx t2 w2 N2 (j + 2) D2"
    by (rule approx_weaken [OF t(3)]) (use j in simp_all)
  have s3: "approx (0 + t0 + t1 + t2) (0 + w0 + w1 + w2) (0 + N0 + N1 + N2) (j + 3)
      (8 * D0 + 4 * D1 + 2 * D2 + 7 * eta)"
    by (rule approx_weaken [OF approx_plus [OF s2 t2]]) (use j in \<open>simp_all add: algebra_simps\<close>)
  have t3: "approx t3 w3 N3 (j + 3) D3"
    by (rule approx_weaken [OF t(4)]) (use j in simp_all)
  show ?thesis
    by (rule approx_weaken [OF approx_plus [OF s3 t3]]) (use j in \<open>simp_all add: algebra_simps\<close>)
qed

lemma approx_row_col_sum:
  assumes "length A = 16" "length B = 16" "r < 4" "c < 4"
  shows "approx (row_col_sum A B r c) (row_col_sum (vals A) (vals B) r c)
     (row_col_sum (mags A) (mags B) r c) 5 (45 * eta)"
proof -
  have i: "r*4 + 0 < 16" "r*4 + 1 < 16" "r*4 + 2 < 16" "r*4 + 3 < 16"
    "0*4 + c < 16" "1*4 + c < 16" "2*4 + c < 16" "3*4 + c < 16"
    using assms(3,4) by simp_all
  have v: "vals A ! i = valof (A ! i)" "vals B ! i = valof (B ! i)"
    "mags A ! i = \<bar>valof (A ! i)\<bar>" "mags B ! i = \<bar>valof (B ! i)\<bar>" if "i < 16" for i
    using that assms(1,2) by (simp_all add: vals_def mags_def)
  have "approx (0 + A ! (r*4 + 0) * B ! (0*4 + c) + A ! (r*4 + 1) * B ! (1*4 + c)
       + A ! (r*4 + 2) * B ! (2*4 + c) + A ! (r*4 + 3) * B ! (3*4 + c))
     (0 + valof (A ! (r*4 + 0)) * valof (B ! (0*4 + c)) + valof (A ! (r*4 + 1)) * valof (B ! (1*4 + c))
       + valof (A ! (r*4 + 2)) * valof (B ! (2*4 + c)) + valof (A ! (r*4 + 3)) * valof (B ! (3*4 + c)))
     (0 + \<bar>valof (A ! (r*4 + 0))\<bar> * \<bar>valof (B ! (0*4 + c))\<bar> + \<bar>valof (A ! (r*4 + 1))\<bar> * \<bar>valof (B ! (1*4 + c))\<bar>
       + \<bar>valof (A ! (r*4 + 2))\<bar> * \<bar>valof (B ! (2*4 + c))\<bar> + \<bar>valof (A ! (r*4 + 3))\<bar> * \<bar>valof (B ! (3*4 + c))\<bar>)
     (1 + 4) (16 * eta + 8 * eta + 4 * eta + 2 * eta + 15 * eta)"
    by (rule approx_sum4 [OF approx_product approx_product approx_product approx_product]) simp
  then show ?thesis
    unfolding row_col_sum_unfold [of A] row_col_sum_unfold [of "vals A"]
      row_col_sum_unfold [of "mags A"] v(1) [OF i(1)] v(1) [OF i(2)] v(1) [OF i(3)] v(1) [OF i(4)]
      v(2) [OF i(5)] v(2) [OF i(6)] v(2) [OF i(7)] v(2) [OF i(8)]
      v(3) [OF i(1)] v(3) [OF i(2)] v(3) [OF i(3)] v(3) [OF i(4)]
      v(4) [OF i(5)] v(4) [OF i(6)] v(4) [OF i(7)] v(4) [OF i(8)]
    by simp
qed

lemma length_vals: "length (vals A) = length A" "length (mags A) = length A"
  by (simp_all add: vals_def mags_def)

lemma nth_vals:
  assumes "length A = 16" "i < 16"
  shows "vals A ! i = valof (A ! i)" "mags A ! i = \<bar>valof (A ! i)\<bar>"
  using assms by (simp_all add: vals_def mags_def)

lemma approx_left_product:
  assumes l: "length A = 16" "length B = 16" "length C = 16" and r: "r < 4" and c: "c < 4"
  shows "approx (row_col_sum (product A B) C r c)
     (row_col_sum (product (vals A) (vals B)) (vals C) r c)
     (row_col_sum (product (mags A) (mags B)) (mags C) r c) 10 ((45 + 1440 * col_magnitude C c) * eta)"
proof -
  have k: "(0::nat) < 4" "(1::nat) < 4" "(2::nat) < 4" "(3::nat) < 4" by simp_all
  have i: "0*4 + c < 16" "1*4 + c < 16" "2*4 + c < 16" "3*4 + c < 16"
    using c by simp_all
  note p = k [THEN product_nth [OF r]]
  note a = k [THEN approx_row_col_sum [OF l(1,2) r]]
  have t: "approx (row_col_sum A B r k * C ! (k*4 + c))
       (row_col_sum (vals A) (vals B) r k * valof (C ! (k*4 + c)))
       (row_col_sum (mags A) (mags B) r k * \<bar>valof (C ! (k*4 + c))\<bar>) (Suc 5)
       (2 * (45 * eta * \<bar>valof (C ! (k*4 + c))\<bar>) + eta)" if "k < 4" for k
    by (rule approx_times_right [OF approx_row_col_sum [OF l(1,2) r that]]) simp
  note s = approx_sum4 [OF k [THEN t]]
  have "approx (0 + row_col_sum A B r 0 * C ! (0*4 + c) + row_col_sum A B r 1 * C ! (1*4 + c)
        + row_col_sum A B r 2 * C ! (2*4 + c) + row_col_sum A B r 3 * C ! (3*4 + c))
     (0 + row_col_sum (vals A) (vals B) r 0 * valof (C ! (0*4 + c))
        + row_col_sum (vals A) (vals B) r 1 * valof (C ! (1*4 + c))
        + row_col_sum (vals A) (vals B) r 2 * valof (C ! (2*4 + c))
        + row_col_sum (vals A) (vals B) r 3 * valof (C ! (3*4 + c)))
     (0 + row_col_sum (mags A) (mags B) r 0 * \<bar>valof (C ! (0*4 + c))\<bar>
        + row_col_sum (mags A) (mags B) r 1 * \<bar>valof (C ! (1*4 + c))\<bar>
        + row_col_sum (mags A) (mags B) r 2 * \<bar>valof (C ! (2*4 + c))\<bar>
        + row_col_sum (mags A) (mags B) r 3 * \<bar>valof (C ! (3*4 + c))\<bar>)
     10 ((45 + 1440 * col_magnitude C c) * eta)"
    by (rule approx_weaken [OF s]) (use eta_nonneg in \<open>simp_all add: col_magnitude_def algebra_simps\<close>)
  then show ?thesis
    unfolding row_col_sum_unfold [of "product A B"] row_col_sum_unfold [of "product (vals A) (vals B)"]
      row_col_sum_unfold [of "product (mags A) (mags B)"] p
      nth_vals [OF l(3) i(1)] nth_vals [OF l(3) i(2)] nth_vals [OF l(3) i(3)] nth_vals [OF l(3) i(4)]
    by simp
qed

lemma approx_right_product:
  assumes l: "length A = 16" "length B = 16" "length C = 16" and r: "r < 4" and c: "c < 4"
  shows "approx (row_col_sum A (product B C) r c)
     (row_col_sum (vals A) (product (vals B) (vals C)) r c)
     (row_col_sum (mags A) (product (mags B) (mags C)) r c) 10 ((45 + 1440 * row_magnitude A r) * eta)"
proof -
  have k: "(0::nat) < 4" "(1::nat) < 4" "(2::nat) < 4" "(3::nat) < 4" by simp_all
  have i: "r*4 + 0 < 16" "r*4 + 1 < 16" "r*4 + 2 < 16" "r*4 + 3 < 16"
    using r by simp_all
  have p: "product X Y ! (k*4 + c) = row_col_sum X Y k c" if "k < 4" for k and X Y :: "('a::{zero,plus,times}) list"
    by (rule product_nth [OF that c])
  have t: "approx (A ! (r*4 + k) * row_col_sum B C k c)
       (valof (A ! (r*4 + k)) * row_col_sum (vals B) (vals C) k c)
       (\<bar>valof (A ! (r*4 + k))\<bar> * row_col_sum (mags B) (mags C) k c) (Suc 5)
       (2 * (\<bar>valof (A ! (r*4 + k))\<bar> * (45 * eta)) + eta)" if "k < 4" for k
    by (rule approx_times_left [OF approx_row_col_sum [OF l(2,3) that c]]) simp
  note s = approx_sum4 [OF k [THEN t]]
  have "approx (0 + A ! (r*4 + 0) * row_col_sum B C 0 c + A ! (r*4 + 1) * row_col_sum B C 1 c
        + A ! (r*4 + 2) * row_col_sum B C 2 c + A ! (r*4 + 3) * row_col_sum B C 3 c)
     (0 + valof (A ! (r*4 + 0)) * row_col_sum (vals B) (vals C) 0 c
        + valof (A ! (r*4 + 1)) * row_col_sum (vals B) (vals C) 1 c
        + valof (A ! (r*4 + 2)) * row_col_sum (vals B) (vals C) 2 c
        + valof (A ! (r*4 + 3)) * row_col_sum (vals B) (vals C) 3 c)
     (0 + \<bar>valof (A ! (r*4 + 0))\<bar> * row_col_sum (mags B) (mags C) 0 c
        + \<bar>valof (A ! (r*4 + 1))\<bar> * row_col_sum (mags B) (mags C) 1 c
        + \<bar>valof (A ! (r*4 + 2))\<bar> * row_col_sum (mags B) (mags C) 2 c
        + \<bar>valof (A ! (r*4 + 3))\<bar> * row_col_sum (mags B) (mags C) 3 c)
     10 ((45 + 1440 * row_magnitude A r) * eta)"
    by (rule approx_weaken [OF s]) (use eta_nonneg in \<open>simp_all add: row_magnitude_def algebra_simps\<close>)
  then show ?thesis
    unfolding row_col_sum_unfold [of A] row_col_sum_unfold [of "vals A"] row_col_sum_unfold [of "mags A"]
      k [THEN p]
      nth_vals [OF l(1) i(1)] nth_vals [OF l(1) i(2)] nth_vals [OF l(1) i(3)] nth_vals [OF l(1) i(4)]
    by simp
qed

lemma assoc_tolerance_bound:
  fixes S ra cc :: real
  assumes "0 \<le> S" "0 \<le> ra" "0 \<le> cc"
  shows "(real 10 * S / 2 ^ 23 + (45 + 1440 * cc) * eta) + (real 10 * S / 2 ^ 23 + (45 + 1440 * ra) * eta)
           \<le> S / 2 ^ 18 + (1 + ra + cc) / 2 ^ 139"
proof -
  have "real 10 * S / 2 ^ 23 + real 10 * S / 2 ^ 23 = 20 * S / 2 ^ 23" by simp
  also have "\<dots> \<le> 32 * S / 2 ^ 23"
    using assms(1) by (intro divide_right_mono mult_right_mono) simp_all
  also have "\<dots> = S / 2 ^ 18" by simp
  finally have 1: "real 10 * S / 2 ^ 23 + real 10 * S / 2 ^ 23 \<le> S / 2 ^ 18" .
  have "(45 + 1440 * cc) * eta + (45 + 1440 * ra) * eta = (90 + 1440 * ra + 1440 * cc) * eta"
    by (simp add: algebra_simps)
  also have "\<dots> \<le> (2048 * (1 + ra + cc)) * eta"
    using eta_nonneg assms(2,3) by (intro mult_right_mono) simp_all
  also have "\<dots> = (1 + ra + cc) / 2 ^ 139" by (simp add: eta_def)
  finally have 2: "(45 + 1440 * cc) * eta + (45 + 1440 * ra) * eta \<le> (1 + ra + cc) / 2 ^ 139" .
  from 1 2 show ?thesis by linarith
qed

lemma product_entries_tolerance:
  assumes l: "length A = 16" "length B = 16" "length C = 16" and r: "r < 4" and c: "c < 4"
    and f: "is_finite (product (product A B) C ! (r*4 + c))" "is_finite (product A (product B C) ! (r*4 + c))"
  shows "\<bar>valof (product (product A B) C ! (r*4 + c)) - valof (product A (product B C) ! (r*4 + c))\<bar>
     \<le> assoc_tolerance A B C r c"
proof -
  let ?v = "row_col_sum (product (vals A) (vals B)) (vals C) r c"
  let ?S = "row_col_sum (product (mags A) (mags B)) (mags C) r c"
  have lv: "length (vals A) = 16" "length (vals B) = 16" "length (vals C) = 16"
    "length (mags A) = 16" "length (mags B) = 16" "length (mags C) = 16"
    using l by (simp_all add: length_vals)
  have v: "row_col_sum (vals A) (product (vals B) (vals C)) r c = ?v"
    using product_assoc [OF lv(1,2,3)] product_nth [OF r c, of "product (vals A) (vals B)" "vals C"]
      product_nth [OF r c, of "vals A" "product (vals B) (vals C)"] by simp
  have S: "row_col_sum (mags A) (product (mags B) (mags C)) r c = ?S"
    using product_assoc [OF lv(4,5,6)] product_nth [OF r c, of "product (mags A) (mags B)" "mags C"]
      product_nth [OF r c, of "mags A" "product (mags B) (mags C)"] by simp
  note L = approx_left_product [OF l r c]
  note R = approx_right_product [OF l r c, unfolded v S]
  from L have "\<bar>?v\<bar> \<le> ?S" by (simp only: approx_def)
  then have S0: "0 \<le> ?S" by linarith
  have m: "0 \<le> row_magnitude A r" "0 \<le> col_magnitude C c"
    by (simp_all add: row_magnitude_def col_magnitude_def)
  from L f(1) have 1: "\<bar>valof (row_col_sum (product A B) C r c) - ?v\<bar>
      \<le> real 10 * ?S / 2 ^ 23 + (45 + 1440 * col_magnitude C c) * eta"
    by (simp only: approx_def product_nth [OF r c])
  from R f(2) have 2: "\<bar>valof (row_col_sum A (product B C) r c) - ?v\<bar>
      \<le> real 10 * ?S / 2 ^ 23 + (45 + 1440 * row_magnitude A r) * eta"
    by (simp only: approx_def product_nth [OF r c])
  have "\<bar>valof (row_col_sum (product A B) C r c) - valof (row_col_sum A (product B C) r c)\<bar>
      \<le> (real 10 * ?S / 2 ^ 23 + (45 + 1440 * col_magnitude C c) * eta)
        + (real 10 * ?S / 2 ^ 23 + (45 + 1440 * row_magnitude A r) * eta)"
    using 1 2 by linarith
  also have "\<dots> \<le> ?S / 2 ^ 18 + (1 + row_magnitude A r + col_magnitude C c) / 2 ^ 139"
    by (rule assoc_tolerance_bound [OF S0 m])
  finally show ?thesis
    by (simp only: assoc_tolerance_def product_nth [OF r c])
qed

section \<open>Where nothing overflows\<close>

text \<open>
  A result of magnitude below \<open>2\<^sup>1\<^sup>2\<^sup>7\<close> before rounding is finite after it. So the
  determinant, and both products of three matrices, are finite wherever the elements are
  finite and of magnitude at most \<open>2\<^sup>3\<^sup>0\<close>.
\<close>

lemma round_even_finite:
  assumes "real n * 2 powi e < 2 ^ 127"
  shows "is_finite (round_even s n e)"
proof (cases "n = 0")
  case True
  then show ?thesis by (simp add: round_even_def)
next
  case False
  define b where "b = bitlen n"
  from False have pos: "0 < n" by simp
  have lo: "2 ^ (b - 1) \<le> n" and b: "0 < b"
    using bitlen_bounds [OF pos] by (simp_all add: b_def)
  have "(2::real) powi (int b - 1 + e) = 2 powi (int b - 1) * 2 powi e" by (rule two_powi_add)
  also have "(2::real) powi (int b - 1) = 2 ^ (b - 1)"
    using b two_powi_nat [of "int b - 1"] by (simp add: nat_diff_distrib')
  also have "(2::real) ^ (b - 1) * 2 powi e \<le> real n * 2 powi e"
  proof -
    have "(2::real) ^ (b - 1) \<le> real n" using lo by (metis of_nat_le_iff of_nat_numeral of_nat_power)
    then show ?thesis by (intro mult_right_mono) simp_all
  qed
  also have "\<dots> < 2 powi 127" using assms by simp
  finally have "(2::real) powi (int b - 1 + e) < 2 powi 127" .
  then have "int b - 1 + e < 127" by (rule power_int_le_imp_less_exp [rotated]) simp_all
  define e1 where "e1 = max (- 149) (e + int b - 24)"
  define q where "q = (if e1 \<le> e then n * 2 ^ nat (e - e1) else round_div n (2 ^ nat (e1 - e)))"
  have r: "round_even s n e =
      (if 104 < (if q = 2 ^ 24 then e1 + 1 else e1) then Infinity s
       else Finite s (if q = 2 ^ 24 then 2 ^ 23 else q) (if q = 2 ^ 24 then e1 + 1 else e1))"
    using False unfolding round_even_def b_def [symmetric] e1_def [symmetric] Let_def q_def [symmetric]
    by simp
  from \<open>int b - 1 + e < 127\<close> have "e1 \<le> 103" by (simp add: e1_def)
  then show ?thesis unfolding r by simp
qed

lemma fmul_bounded:
  assumes "is_finite x" "is_finite y" "\<bar>valof x\<bar> * \<bar>valof y\<bar> < 2 ^ 127"
  shows "is_finite (fmul x y)"
proof -
  from assms(1,2) obtain s1 m1 e1 s2 m2 e2 where
    x: "x = Finite s1 m1 e1" and y: "y = Finite s2 m2 e2"
    by (cases x; cases y) simp_all
  have "\<bar>valof x\<bar> * \<bar>valof y\<bar> = real (m1 * m2) * 2 powi (e1 + e2)"
    by (simp add: x y two_powi_add abs_mult)
  with assms(3) have "real (m1 * m2) * 2 powi (e1 + e2) < 2 ^ 127" by simp
  from round_even_finite [OF this] show ?thesis by (simp add: x y)
qed

lemma fadd_bounded:
  assumes "is_finite x" "is_finite y" "\<bar>valof x + valof y\<bar> < 2 ^ 127"
  shows "is_finite (fadd x y)"
proof -
  from assms(1,2) obtain s1 m1 e1 s2 m2 e2 where
    x: "x = Finite s1 m1 e1" and y: "y = Finite s2 m2 e2"
    by (cases x; cases y) simp_all
  define e where "e = min e1 e2"
  define v where "v = signed s1 (m1 * 2 ^ nat (e1 - e)) + signed s2 (m2 * 2 ^ nat (e2 - e))"
  have le: "e \<le> e1" "e \<le> e2" by (simp_all add: e_def)
  have f: "fadd x y = (if v = 0 then Finite (s1 \<and> s2) 0 (- 149) else round_even (v < 0) (nat \<bar>v\<bar>) e)"
    by (simp add: x y Let_def e_def v_def)
  have "valof x = real_of_int (signed s1 (m1 * 2 ^ nat (e1 - e))) * 2 powi e"
    unfolding x valof.simps valof_signed [symmetric]
    by (simp add: two_powi_split [OF le(1), symmetric])
  moreover have "valof y = real_of_int (signed s2 (m2 * 2 ^ nat (e2 - e))) * 2 powi e"
    unfolding y valof.simps valof_signed [symmetric]
    by (simp add: two_powi_split [OF le(2), symmetric])
  ultimately have sum: "valof x + valof y = real_of_int v * 2 powi e"
    by (simp add: v_def algebra_simps)
  have "real (nat \<bar>v\<bar>) = \<bar>real_of_int v\<bar>" by simp
  then have "real (nat \<bar>v\<bar>) * 2 powi e = \<bar>valof x + valof y\<bar>"
    by (simp add: sum abs_mult)
  with assms(3) have "real (nat \<bar>v\<bar>) * 2 powi e < 2 ^ 127" by simp
  from round_even_finite [OF this] show ?thesis by (simp add: f)
qed

lemma magnitude_step:
  fixes r v M :: real
  assumes "\<bar>r - v\<bar> \<le> \<bar>v\<bar> / 2 ^ 24 + 1 / 2 ^ 150" "\<bar>v\<bar> \<le> M"
  shows "\<bar>r\<bar> \<le> 2 * M + 1"
proof -
  have "\<bar>v\<bar> / 2 ^ 24 \<le> \<bar>v\<bar> / 1" by (intro divide_left_mono) simp_all
  with assms(2) have 1: "\<bar>v\<bar> / 2 ^ 24 \<le> M" by simp
  have 2: "1 / 2 ^ 150 \<le> (1::real)" by simp
  have "\<bar>r\<bar> \<le> \<bar>r - v\<bar> + \<bar>v\<bar>" by simp
  also have "\<dots> \<le> (\<bar>v\<bar> / 2 ^ 24 + 1 / 2 ^ 150) + \<bar>v\<bar>" using assms(1) by simp
  also have "\<dots> \<le> (M + 1) + M" by (intro add_mono 1 2 assms(2))
  finally show ?thesis by simp
qed

lemma bounded_times:
  assumes "bounded x K" "bounded y L" "2 * (K * L) + 1 \<le> N" "N < 2 ^ 127"
  shows "bounded (x * y) N"
proof -
  from assms(1,2) have f: "is_finite x" "is_finite y" and b: "\<bar>valof x\<bar> \<le> K" "\<bar>valof y\<bar> \<le> L"
    by (simp_all add: bounded_def)
  have p: "\<bar>valof x\<bar> * \<bar>valof y\<bar> \<le> K * L"
    using b by (intro mult_mono) simp_all
  have "0 \<le> \<bar>valof x\<bar> * \<bar>valof y\<bar>" by simp
  with p have k: "0 \<le> K * L" by linarith
  from p k assms(3,4) have "\<bar>valof x\<bar> * \<bar>valof y\<bar> < 2 ^ 127" by linarith
  from fmul_bounded [OF f this] have fin: "is_finite (x * y)" by (simp add: times_float32_def)
  have a: "\<bar>valof x * valof y\<bar> \<le> K * L" using p by (simp add: abs_mult)
  have "\<bar>valof (x * y)\<bar> \<le> 2 * (K * L) + 1"
    by (rule magnitude_step [OF times_error(3) [OF fin] a])
  with fin assms(3) show ?thesis by (simp add: bounded_def)
qed

lemma bounded_plus:
  assumes "bounded x K" "bounded y L" "2 * (K + L) + 1 \<le> N" "N < 2 ^ 127"
  shows "bounded (x + y) N"
proof -
  from assms(1,2) have f: "is_finite x" "is_finite y" and b: "\<bar>valof x\<bar> \<le> K" "\<bar>valof y\<bar> \<le> L"
    by (simp_all add: bounded_def)
  have a: "\<bar>valof x + valof y\<bar> \<le> K + L" using b by linarith
  have "0 \<le> \<bar>valof x + valof y\<bar>" by simp
  with a have kl: "0 \<le> K + L" by (rule order_trans [rotated])
  note a
  also have "K + L \<le> 2 * (K + L) + 1" using kl by simp
  also note assms(3)
  also note assms(4)
  finally have "\<bar>valof x + valof y\<bar> < 2 ^ 127" .
  from fadd_bounded [OF f this] have fin: "is_finite (x + y)" by (simp add: plus_float32_def)
  have "\<bar>valof (x + y)\<bar> \<le> 2 * (K + L) + 1"
    by (rule magnitude_step [OF plus_error(3) [OF fin] a])
  with fin assms(3) show ?thesis by (simp add: bounded_def)
qed

lemma bounded_minus:
  assumes "bounded x K" "bounded y L" "2 * (K + L) + 1 \<le> N" "N < 2 ^ 127"
  shows "bounded (x - y) N"
proof -
  from assms(2) have "bounded (- y) L"
    by (simp add: bounded_def uminus_float32_def fneg_finite valof_fneg)
  from bounded_plus [OF assms(1) this assms(3,4)] show ?thesis
    by (simp add: plus_float32_def minus_float32_def uminus_float32_def)
qed

lemma bounded_zero: "bounded 0 0"
  by (simp add: bounded_def zero_float32_def)

lemma bounded_minor:
  assumes "bounded x (2 ^ 30)" "bounded y (2 ^ 30)" "bounded z (2 ^ 30)" "bounded w (2 ^ 30)"
  shows "bounded (x * y - z * w) (2 ^ 65)"
proof -
  have "bounded (x * y) (2 ^ 62)" by (rule bounded_times [OF assms(1,2)]) simp_all
  moreover have "bounded (z * w) (2 ^ 62)" by (rule bounded_times [OF assms(3,4)]) simp_all
  ultimately show ?thesis by (rule bounded_minus) simp_all
qed

lemma bounded_cofactor:
  assumes "bounded a (2 ^ 30)" "bounded x (2 ^ 30)" "bounded y (2 ^ 30)" "bounded z (2 ^ 30)" "bounded w (2 ^ 30)"
  shows "bounded (a * (x * y - z * w)) (2 ^ 97)"
  by (rule bounded_times [OF assms(1) bounded_minor [OF assms(2,3,4,5)]]) simp_all

lemma bounded_cofactor_det3:
  assumes "bounded a (2 ^ 30)" "bounded b (2 ^ 30)" "bounded c (2 ^ 30)"
    "bounded d (2 ^ 30)" "bounded e (2 ^ 30)" "bounded f (2 ^ 30)"
    "bounded g (2 ^ 30)" "bounded h (2 ^ 30)" "bounded i (2 ^ 30)"
  shows "is_finite (cofactor_det3 a b c d e f g h i)"
proof -
  have "bounded (a * (e * i - f * h) - b * (d * i - f * g)) (2 ^ 100)"
    by (rule bounded_minus [OF bounded_cofactor [OF assms(1,5,9,6,8)] bounded_cofactor [OF assms(2,4,9,6,7)]])
      simp_all
  then have "bounded (a * (e * i - f * h) - b * (d * i - f * g) + c * (d * h - e * g)) (2 ^ 102)"
    by (rule bounded_plus [OF _ bounded_cofactor [OF assms(3,4,8,5,7)]]) simp_all
  then show ?thesis
    by (simp add: bounded_def cofactor_det3_def det2_def)
qed

lemma bounded_sum4:
  assumes "bounded t0 K" "bounded t1 K" "bounded t2 K" "bounded t3 K" "1 \<le> K" "256 * K < 2 ^ 127"
  shows "bounded (0 + t0 + t1 + t2 + t3) (256 * K)"
proof -
  have "bounded (0 + t0) (4 * K)"
    by (rule bounded_plus [OF bounded_zero assms(1)]) (use assms(5,6) in simp_all)
  then have "bounded (0 + t0 + t1) (16 * K)"
    by (rule bounded_plus [OF _ assms(2)]) (use assms(5,6) in simp_all)
  then have "bounded (0 + t0 + t1 + t2) (64 * K)"
    by (rule bounded_plus [OF _ assms(3)]) (use assms(5,6) in simp_all)
  then show ?thesis
    by (rule bounded_plus [OF _ assms(4)]) (use assms(5,6) in simp_all)
qed

lemma bounded_row_col_sum:
  assumes A: "\<And>i. i < 16 \<Longrightarrow> bounded (A ! i) K" and B: "\<And>i. i < 16 \<Longrightarrow> bounded (B ! i) L"
    and "2 * (K * L) + 1 \<le> N" "1 \<le> N" "256 * N < 2 ^ 127" and r: "r < 4" and c: "c < 4"
  shows "bounded (row_col_sum A B r c) (256 * N)"
proof -
  have i: "r*4 + 0 < 16" "r*4 + 1 < 16" "r*4 + 2 < 16" "r*4 + 3 < 16"
    "0*4 + c < 16" "1*4 + c < 16" "2*4 + c < 16" "3*4 + c < 16"
    using r c by simp_all
  have N: "N < 2 ^ 127" using assms(4,5) by simp
  have t: "bounded (A ! i * B ! j) N" if "i < 16" "j < 16" for i j
    by (rule bounded_times [OF A [OF that(1)] B [OF that(2)] assms(3) N])
  show ?thesis
    unfolding row_col_sum_unfold
    by (rule bounded_sum4 [OF t [OF i(1,5)] t [OF i(2,6)] t [OF i(3,7)] t [OF i(4,8)] assms(4,5)])
qed

lemma bounded_product:
  assumes A: "\<And>i. i < 16 \<Longrightarrow> bounded (A ! i) K" and B: "\<And>i. i < 16 \<Longrightarrow> bounded (B ! i) L"
    and "2 * (K * L) + 1 \<le> N" "1 \<le> N" "256 * N < 2 ^ 127" and i: "i < 16"
  shows "bounded (product A B ! i) (256 * N)"
proof -
  have "i div 4 < 4" "i mod 4 < 4" using i by simp_all
  from bounded_row_col_sum [OF A B assms(3,4,5) this]
  show ?thesis using i by (simp add: product_def)
qed

lemma products_finite:
  assumes A: "\<And>i. i < 16 \<Longrightarrow> bounded (A ! i) (2 ^ 30)" and B: "\<And>i. i < 16 \<Longrightarrow> bounded (B ! i) (2 ^ 30)"
    and C: "\<And>i. i < 16 \<Longrightarrow> bounded (C ! i) (2 ^ 30)" and i: "i < 16"
  shows "is_finite (product (product A B) C ! i)" "is_finite (product A (product B C) ! i)"
proof -
  have AB: "bounded (product A B ! i) (256 * 2 ^ 62)" if "i < 16" for i
    by (rule bounded_product [OF A B _ _ _ that]) simp_all
  have BC: "bounded (product B C ! i) (256 * 2 ^ 62)" if "i < 16" for i
    by (rule bounded_product [OF B C _ _ _ that]) simp_all
  have "bounded (product (product A B) C ! i) (256 * 2 ^ 102)"
    by (rule bounded_product [OF AB C _ _ _ i]) simp_all
  then show "is_finite (product (product A B) C ! i)" by (simp add: bounded_def)
  have "bounded (product A (product B C) ! i) (256 * 2 ^ 102)"
    by (rule bounded_product [OF A BC _ _ _ i]) simp_all
  then show "is_finite (product A (product B C) ! i)" by (simp add: bounded_def)
qed

section \<open>Properties of the methods\<close>

subsection \<open>multiply\<close>

text \<open>
  C1. With \<open>M\<close> the receiver's 16 elements and \<open>N\<close> the argument's before the call (the two
  may be the same buffer), after \<^verbatim>\<open>M.multiply(N)\<close> the receiver's buffer still holds 16
  elements and the one at \<open>r*4 + c\<close> is the sum over \<open>k = 0..3\<close> of
  \<open>M[r*4 + k] * N[k*4 + c]\<close>, accumulated from \<open>0\<close> in that order, for all \<open>r, c < 4\<close>: every
  element of the receiver is replaced by its entry of the product.
\<close>

theorem multiply_entries:
  assumes "buf h (m this) = Some M" and "buf h (m other) = Some N"
    and "length M = 16" and "length N = 16" and "length junk = 16"
  shows "map_option length (buf (multiply junk this other h) (m this)) = Some 16 \<and>
         (\<forall>r<4. \<forall>c<4. load (multiply junk this other h) (m this) (r*4 + c) =
             0 + M ! (r*4 + 0) * N ! (0*4 + c) + M ! (r*4 + 1) * N ! (1*4 + c)
               + M ! (r*4 + 2) * N ! (2*4 + c) + M ! (r*4 + 3) * N ! (3*4 + c))"
  using multiply_result [OF assms(1,2,3,5), of "m this"]
  by (simp add: load_def length_product product_nth row_col_sum_unfold)

theorem multiply_entries_witness:
  "buf [Some seq16, Some rev16] (m \<lparr>m = 0\<rparr>) = Some seq16 \<and>
   buf [Some seq16, Some rev16] (m \<lparr>m = 1\<rparr>) = Some rev16 \<and>
   length seq16 = 16 \<and> length rev16 = 16 \<and> length junk16 = 16 \<and>
   map_option length (buf (multiply junk16 \<lparr>m = 0\<rparr> \<lparr>m = 1\<rparr> [Some seq16, Some rev16]) 0) = Some 16 \<and>
   load (multiply junk16 \<lparr>m = 0\<rparr> \<lparr>m = 1\<rparr> [Some seq16, Some rev16]) 0 6 = f32_of_nat 188"
proof -
  have h: "buf [Some seq16, Some rev16] (m \<lparr>m = 0\<rparr>) = Some seq16"
    "buf [Some seq16, Some rev16] (m \<lparr>m = 1\<rparr>) = Some rev16"
    "length seq16 = 16" "length rev16 = 16" "length junk16 = 16"
    by (simp_all add: buf_def seq16_def rev16_def junk16_def)
  have "load (multiply junk16 \<lparr>m = 0\<rparr> \<lparr>m = 1\<rparr> [Some seq16, Some rev16]) 0 (1*4 + 2) =
      0 + seq16 ! (1*4 + 0) * rev16 ! (0*4 + 2) + seq16 ! (1*4 + 1) * rev16 ! (1*4 + 2)
        + seq16 ! (1*4 + 2) * rev16 ! (2*4 + 2) + seq16 ! (1*4 + 3) * rev16 ! (3*4 + 2)"
    using multiply_entries [OF h, THEN conjunct2, rule_format, of 1 2] by simp
  also have "\<dots> = f32_of_nat 188"
    by (simp add: seq16_def rev16_def f32_eval)
  finally show ?thesis using h multiply_entries [OF h] by simp
qed


text \<open>
  C10. The self-call \<^verbatim>\<open>A.multiply(A)\<close> leaves \<open>A\<close> holding the product of \<open>A\<close> with itself:
  the element at \<open>r*4 + c\<close> is the sum over \<open>k\<close> of \<open>old A[r*4 + k] * old A[k*4 + c]\<close>. The
  loops write \<^verbatim>\<open>temp\<close> only, a block of its own, and \<open>A\<close> is overwritten after them.
\<close>

theorem multiply_self:
  assumes "buf h (m this) = Some A" and "length A = 16" and "length junk = 16"
  shows "map_option length (buf (multiply junk this this h) (m this)) = Some 16 \<and>
         (\<forall>r<4. \<forall>c<4. load (multiply junk this this h) (m this) (r*4 + c) =
             0 + A ! (r*4 + 0) * A ! (0*4 + c) + A ! (r*4 + 1) * A ! (1*4 + c)
               + A ! (r*4 + 2) * A ! (2*4 + c) + A ! (r*4 + 3) * A ! (3*4 + c))"
  using multiply_result [OF assms(1,1,2,3), of "m this"]
  by (simp add: load_def length_product product_nth row_col_sum_unfold)

theorem multiply_self_witness:
  "buf [Some seq16] (m \<lparr>m = 0\<rparr>) = Some seq16 \<and> length seq16 = 16 \<and> length junk16 = 16 \<and>
   map_option length (buf (multiply junk16 \<lparr>m = 0\<rparr> \<lparr>m = 0\<rparr> [Some seq16]) 0) = Some 16 \<and>
   load (multiply junk16 \<lparr>m = 0\<rparr> \<lparr>m = 0\<rparr> [Some seq16]) 0 6 = f32_of_nat 254"
proof -
  have h: "buf [Some seq16] (m \<lparr>m = 0\<rparr>) = Some seq16" "length seq16 = 16" "length junk16 = 16"
    by (simp_all add: buf_def seq16_def junk16_def)
  have "load (multiply junk16 \<lparr>m = 0\<rparr> \<lparr>m = 0\<rparr> [Some seq16]) 0 (1*4 + 2) =
      0 + seq16 ! (1*4 + 0) * seq16 ! (0*4 + 2) + seq16 ! (1*4 + 1) * seq16 ! (1*4 + 2)
        + seq16 ! (1*4 + 2) * seq16 ! (2*4 + 2) + seq16 ! (1*4 + 3) * seq16 ! (3*4 + 2)"
    using multiply_self [OF h, THEN conjunct2, rule_format, of 1 2] by simp
  also have "\<dots> = f32_of_nat 254"
    by (simp add: seq16_def f32_eval)
  finally show ?thesis using h multiply_self [OF h] by simp
qed

text \<open>
  C6, as stated, fails where the argument is the receiver: \<^verbatim>\<open>A.multiply(A)\<close> on the
  matrix \<open>1, 2, ..., 16\<close> leaves \<open>90\<close> in element 0 of the argument, which held \<open>1\<close>.
\<close>

theorem multiply_other_mutated_when_aliased:
  "load (multiply junk16 \<lparr>m = 0\<rparr> \<lparr>m = 0\<rparr> [Some seq16]) (m \<lparr>m = 0\<rparr>) 0 \<noteq> load [Some seq16] (m \<lparr>m = 0\<rparr>) 0"
proof -
  have h: "buf [Some seq16] (m \<lparr>m = 0\<rparr>) = Some seq16" "length seq16 = 16" "length junk16 = 16"
    by (simp_all add: buf_def seq16_def junk16_def)
  have "load (multiply junk16 \<lparr>m = 0\<rparr> \<lparr>m = 0\<rparr> [Some seq16]) 0 0 = product seq16 seq16 ! (0*4 + 0)"
    using multiply_result [OF h(1,1,2,3), of 0] by (simp add: load_def)
  also have "\<dots> = row_col_sum seq16 seq16 0 0"
    by (rule product_nth) simp_all
  also have "\<dots> = f32_of_nat 90"
    unfolding row_col_sum_unfold by (simp add: seq16_def f32_eval)
  finally have "load (multiply junk16 \<lparr>m = 0\<rparr> \<lparr>m = 0\<rparr> [Some seq16]) 0 0 = f32_of_nat 90" .
  moreover have "load [Some seq16] 0 0 = f32_of_nat 1"
    by (simp add: load_def buf_def seq16_def)
  moreover have "f32_of_nat 90 \<noteq> f32_of_nat 1"
    by (simp add: f32_eval)
  ultimately show ?thesis by simp
qed

text \<open>
  C6, amended. When the argument's buffer is not the receiver's, \<^verbatim>\<open>M.multiply(other)\<close>
  leaves all 16 elements of \<open>other\<close> as they were.
\<close>

theorem multiply_other_unchanged:
  assumes "buf h (m this) = Some M" and "buf h (m other) = Some N"
    and "length M = 16" and "length N = 16" and "length junk = 16"
    and "m other \<noteq> m this"
  shows "buf (multiply junk this other h) (m other) = Some N"
proof -
  from assms(2) have "m other < length h" using buf_live by fast
  then show ?thesis
    using multiply_result [OF assms(1,2,3,5), of "m other"] assms(2,6) by simp
qed

theorem multiply_other_unchanged_witness:
  "buf [Some seq16, Some rev16] (m \<lparr>m = 0\<rparr>) = Some seq16 \<and>
   buf [Some seq16, Some rev16] (m \<lparr>m = 1\<rparr>) = Some rev16 \<and>
   length seq16 = 16 \<and> length rev16 = 16 \<and> length junk16 = 16 \<and>
   m \<lparr>m = 1\<rparr> \<noteq> m \<lparr>m = 0\<rparr> \<and>
   buf (multiply junk16 \<lparr>m = 0\<rparr> \<lparr>m = 1\<rparr> [Some seq16, Some rev16]) (m \<lparr>m = 1\<rparr>) = Some rev16"
proof -
  have h: "buf [Some seq16, Some rev16] (m \<lparr>m = 0\<rparr>) = Some seq16"
    "buf [Some seq16, Some rev16] (m \<lparr>m = 1\<rparr>) = Some rev16"
    "length seq16 = 16" "length rev16 = 16" "length junk16 = 16"
    "m \<lparr>m = 1\<rparr> \<noteq> m \<lparr>m = 0\<rparr>"
    by (simp_all add: buf_def seq16_def rev16_def junk16_def)
  show ?thesis using h multiply_other_unchanged [OF h] by simp
qed

subsection \<open>setTranslation\<close>

lemma setTranslation_heap:
  assumes "buf h (m this) = Some M"
  shows "setTranslation this x y z h = h[m this := Some (M[12 := x, 13 := y, 14 := z])]"
proof -
  from assms have live: "m this < length h" using buf_live by fast
  show ?thesis
    using assms live by (simp add: setTranslation_def store_live buf_update Let_def)
qed

text \<open>
  C3. After \<^verbatim>\<open>M.setTranslation(x, y, z)\<close> the elements 12, 13, 14 are \<open>x\<close>, \<open>y\<close>, \<open>z\<close> and each
  of the other 13 elements is what it was.
\<close>

theorem setTranslation_frame:
  assumes "buf h (m this) = Some M" and "length M = 16"
  shows "map_option length (buf (setTranslation this x y z h) (m this)) = Some 16 \<and>
         load (setTranslation this x y z h) (m this) 12 = x \<and>
         load (setTranslation this x y z h) (m this) 13 = y \<and>
         load (setTranslation this x y z h) (m this) 14 = z \<and>
         (\<forall>i<16. i \<noteq> 12 \<and> i \<noteq> 13 \<and> i \<noteq> 14 \<longrightarrow>
             load (setTranslation this x y z h) (m this) i = M ! i)"
proof -
  from assms have live: "m this < length h" using buf_live by fast
  show ?thesis
    unfolding setTranslation_heap [OF assms(1)]
    using live assms(2) by (simp add: load_def buf_update)
qed

theorem setTranslation_frame_witness:
  "buf [Some seq16] (m \<lparr>m = 0\<rparr>) = Some seq16 \<and> length seq16 = 16 \<and>
   map_option length (buf (setTranslation \<lparr>m = 0\<rparr> (f32_of_nat 10) (f32_of_nat 5) 0 [Some seq16]) 0) = Some 16 \<and>
   load (setTranslation \<lparr>m = 0\<rparr> (f32_of_nat 10) (f32_of_nat 5) 0 [Some seq16]) 0 12 = f32_of_nat 10 \<and>
   load (setTranslation \<lparr>m = 0\<rparr> (f32_of_nat 10) (f32_of_nat 5) 0 [Some seq16]) 0 13 = f32_of_nat 5 \<and>
   load (setTranslation \<lparr>m = 0\<rparr> (f32_of_nat 10) (f32_of_nat 5) 0 [Some seq16]) 0 14 = 0 \<and>
   load (setTranslation \<lparr>m = 0\<rparr> (f32_of_nat 10) (f32_of_nat 5) 0 [Some seq16]) 0 15 = f32_of_nat 16"
proof -
  have h: "buf [Some seq16] (m \<lparr>m = 0\<rparr>) = Some seq16" "length seq16 = 16"
    by (simp_all add: buf_def seq16_def)
  have "seq16 ! 15 = f32_of_nat 16" by (simp add: seq16_def)
  then show ?thesis
    using h setTranslation_frame [OF h, of "f32_of_nat 10" "f32_of_nat 5" 0] by simp
qed


subsection \<open>identity and the constructor\<close>

lemma zero16:
  assumes "length M = 16"
  shows "fold (\<lambda>i xs. xs[i := v]) [0..<16] M = [v,v,v,v, v,v,v,v, v,v,v,v, v,v,v,v]"
proof -
  obtain x0 x1 x2 x3 x4 x5 x6 x7 x8 x9 x10 x11 x12 x13 x14 x15 where
    M: "M = [x0,x1,x2,x3,x4,x5,x6,x7,x8,x9,x10,x11,x12,x13,x14,x15]"
    using list16 [OF assms] by blast
  show ?thesis unfolding M upt16 by simp
qed

lemma identity_heap:
  assumes "buf h (m this) = Some M" and "length M = 16"
  shows "identity this h = h[m this := Some [1,0,0,0, 0,1,0,0, 0,0,1,0, 0,0,0,1]]"
proof -
  from assms have live: "m this < length h" using buf_live by fast
  let ?Z = "[0,0,0,0, 0,0,0,0, 0,0,0,0, 0,0,0,0::'a]"
  have "fold (\<lambda>i h. store h (m this) i 0) [0..<16] h = h[m this := Some ?Z]"
    using fold_store [OF assms(1), of "\<lambda>i. i" "\<lambda>i. 0" "[0..<16]"] zero16 [OF assms(2), of 0]
    by simp
  then show ?thesis
    using live by (simp add: identity_def Let_def store_live buf_update)
qed

lemma identity_nth:
  assumes "i < 16"
  shows "[1,0,0,0, 0,1,0,0, 0,0,1,0, 0,0,0,1] ! i = (if i = 0 \<or> i = 5 \<or> i = 10 \<or> i = 15 then 1 else 0)"
proof -
  from assms have "i \<in> set [0..<16]" by simp
  then show ?thesis unfolding upt16 by auto
qed

lemma Matrix4_new_heap:
  assumes "length junk = 16"
  shows "Matrix4_new junk h = (\<lparr>m = length h\<rparr>, h @ [Some [1,0,0,0, 0,1,0,0, 0,0,1,0, 0,0,0,1]])"
proof -
  have "buf (h @ [Some junk]) (m \<lparr>m = length h\<rparr>) = Some junk" by (simp add: buf_def)
  from identity_heap [OF this assms] show ?thesis
    by (simp add: Matrix4_new_def new_array_def)
qed

text \<open>
  C4. After \<^verbatim>\<open>M.identity()\<close> the elements 0, 5, 10, 15 are \<open>1\<close> and every other element
  is \<open>0\<close>; a freshly constructed \<^verbatim>\<open>Matrix4\<close> is in the same state, whatever the new
  buffer held.
\<close>

theorem identity_state:
  "(buf h (m this) = Some M \<and> length M = 16 \<longrightarrow>
      map_option length (buf (identity this h) (m this)) = Some 16 \<and>
      (\<forall>i<16. load (identity this h) (m this) i = (if i = 0 \<or> i = 5 \<or> i = 10 \<or> i = 15 then 1 else 0))) \<and>
   (length junk = 16 \<longrightarrow>
      map_option length (buf (snd (Matrix4_new junk h)) (m (fst (Matrix4_new junk h)))) = Some 16 \<and>
      (\<forall>i<16. load (snd (Matrix4_new junk h)) (m (fst (Matrix4_new junk h))) i =
                (if i = 0 \<or> i = 5 \<or> i = 10 \<or> i = 15 then 1 else 0)))"
proof (intro conjI impI)
  assume a: "buf h (m this) = Some M \<and> length M = 16"
  then have live: "m this < length h" using buf_live by fast
  from a live show "map_option length (buf (identity this h) (m this)) = Some 16"
    by (simp add: identity_heap buf_update)
  from a live show "\<forall>i<16. load (identity this h) (m this) i = (if i = 0 \<or> i = 5 \<or> i = 10 \<or> i = 15 then 1 else 0)"
    by (simp add: identity_heap buf_update load_def identity_nth del: nth_Cons_numeral)
next
  assume j: "length junk = 16"
  show "map_option length (buf (snd (Matrix4_new junk h)) (m (fst (Matrix4_new junk h)))) = Some 16"
    by (simp add: Matrix4_new_heap [OF j] buf_def)
  show "\<forall>i<16. load (snd (Matrix4_new junk h)) (m (fst (Matrix4_new junk h))) i =
                (if i = 0 \<or> i = 5 \<or> i = 10 \<or> i = 15 then 1 else 0)"
    by (simp add: Matrix4_new_heap [OF j] buf_def load_def identity_nth del: nth_Cons_numeral)
qed

theorem identity_state_witness:
  "buf [Some seq16] (m \<lparr>m = 0\<rparr>) = Some seq16 \<and> length seq16 = 16 \<and>
   load (identity \<lparr>m = 0\<rparr> [Some seq16]) (m \<lparr>m = 0\<rparr>) 5 = 1 \<and>
   load (identity \<lparr>m = 0\<rparr> [Some seq16]) (m \<lparr>m = 0\<rparr>) 6 = 0 \<and>
   length junk16 = 16 \<and>
   load (snd (Matrix4_new junk16 [Some seq16])) (m (fst (Matrix4_new junk16 [Some seq16]))) 10 = 1 \<and>
   load (snd (Matrix4_new junk16 [Some seq16])) (m (fst (Matrix4_new junk16 [Some seq16]))) 11 = 0"
proof -
  have h: "buf [Some seq16] (m \<lparr>m = 0\<rparr>) = Some seq16 \<and> length seq16 = 16"
    by (simp add: buf_def seq16_def)
  have j: "length junk16 = 16" by (simp add: junk16_def)
  note a = identity_state [of "[Some seq16]" "\<lparr>m = 0\<rparr>" seq16 junk16, THEN conjunct1, rule_format, OF h]
  note b = identity_state [of "[Some seq16]" "\<lparr>m = 0\<rparr>" seq16 junk16, THEN conjunct2, rule_format, OF j]
  show ?thesis
    using h j a [THEN conjunct2, rule_format, of 5] a [THEN conjunct2, rule_format, of 6]
      b [THEN conjunct2, rule_format, of 10] b [THEN conjunct2, rule_format, of 11]
    by simp
qed

subsection \<open>The identity matrix as a unit\<close>

lemma identity_product:
  assumes "length N = 16" "\<forall>x\<in>set N. fin x"
  shows "product [1,0,0,0, 0,1,0,0, 0,0,1,0, 0,0,0,1] N = map plus_zero N"
    and "product N [1,0,0,0, 0,1,0,0, 0,0,1,0, 0,0,0,1] = map plus_zero N"
proof -
  obtain x0 x1 x2 x3 x4 x5 x6 x7 x8 x9 x10 x11 x12 x13 x14 x15 where
    N: "N = [x0,x1,x2,x3,x4,x5,x6,x7,x8,x9,x10,x11,x12,x13,x14,x15]"
    using list16 [OF assms(1)] by blast
  from assms(2) have f: "fin x0" "fin x1" "fin x2" "fin x3" "fin x4" "fin x5" "fin x6" "fin x7"
    "fin x8" "fin x9" "fin x10" "fin x11" "fin x12" "fin x13" "fin x14" "fin x15"
    unfolding N by simp_all
  show "product [1,0,0,0, 0,1,0,0, 0,0,1,0, 0,0,0,1] N = map plus_zero N"
    unfolding N product_def row_col_sum_def upt4 upt16
    using f by (simp add: fin_laws fin_plus_zero_like)
  show "product N [1,0,0,0, 0,1,0,0, 0,0,1,0, 0,0,0,1] = map plus_zero N"
    unfolding N product_def row_col_sum_def upt4 upt16
    using f by (simp add: fin_laws fin_plus_zero_like)
qed

text \<open>
  C5, as stated, fails on a matrix with an infinite element, since \<open>0 * \<infinity>\<close> is NaN: with
  \<open>N\<close> the matrix \<open>1, 2, ..., 16\<close> whose element 4 is \<open>+\<infinity>\<close> and \<open>M\<close> in the identity state,
  \<^verbatim>\<open>M.multiply(N)\<close> leaves NaN in element 0 of \<open>M\<close>, where \<open>N\<close> holds 1, and
  \<^verbatim>\<open>N.multiply(M)\<close> leaves NaN in element 5 of \<open>N\<close>, which held 6.
\<close>

theorem identity_multiply_infinity:
  "load (multiply junk16 \<lparr>m = 0\<rparr> \<lparr>m = 1\<rparr> (identity \<lparr>m = 0\<rparr> [Some junk16, Some inf16])) (m \<lparr>m = 0\<rparr>) 0
     \<noteq> load (identity \<lparr>m = 0\<rparr> [Some junk16, Some inf16]) (m \<lparr>m = 1\<rparr>) 0 \<and>
   load (multiply junk16 \<lparr>m = 1\<rparr> \<lparr>m = 0\<rparr> (identity \<lparr>m = 0\<rparr> [Some junk16, Some inf16])) (m \<lparr>m = 1\<rparr>) 5
     \<noteq> load (identity \<lparr>m = 0\<rparr> [Some junk16, Some inf16]) (m \<lparr>m = 1\<rparr>) 5"
proof -
  let ?I = "[1,0,0,0, 0,1,0,0, 0,0,1,0, 0,0,0,1::float32]"
  have "buf [Some junk16, Some inf16] (m \<lparr>m = 0\<rparr>) = Some junk16" "length junk16 = 16"
    by (simp_all add: buf_def junk16_def)
  from identity_heap [OF this]
  have h0: "identity \<lparr>m = 0\<rparr> [Some junk16, Some inf16] = [Some ?I, Some inf16]" by simp
  have b: "buf [Some ?I, Some inf16] (m \<lparr>m = 0\<rparr>) = Some ?I"
    "buf [Some ?I, Some inf16] (m \<lparr>m = 1\<rparr>) = Some inf16"
    and l: "length ?I = 16" "length inf16 = 16" "length junk16 = 16"
    by (simp_all add: buf_def junk16_def inf16_def seq16_def)
  have "load (multiply junk16 \<lparr>m = 0\<rparr> \<lparr>m = 1\<rparr> [Some ?I, Some inf16]) 0 0 = product ?I inf16 ! (0*4 + 0)"
    using multiply_result [OF b(1,2) l(1,3), of 0] by (simp add: load_def)
  also have "\<dots> = row_col_sum ?I inf16 0 0" by (rule product_nth) simp_all
  also have "\<dots> = NaN"
    unfolding row_col_sum_unfold by (simp add: inf16_def seq16_def f32_eval)
  finally have 1: "load (multiply junk16 \<lparr>m = 0\<rparr> \<lparr>m = 1\<rparr> [Some ?I, Some inf16]) 0 0 = NaN" .
  have "load (multiply junk16 \<lparr>m = 1\<rparr> \<lparr>m = 0\<rparr> [Some ?I, Some inf16]) 1 5 = product inf16 ?I ! (1*4 + 1)"
    using multiply_result [OF b(2,1) l(2,3), of 1] by (simp add: load_def)
  also have "\<dots> = row_col_sum inf16 ?I 1 1" by (rule product_nth) simp_all
  also have "\<dots> = NaN"
    unfolding row_col_sum_unfold by (simp add: inf16_def seq16_def f32_eval)
  finally have 2: "load (multiply junk16 \<lparr>m = 1\<rparr> \<lparr>m = 0\<rparr> [Some ?I, Some inf16]) 1 5 = NaN" .
  have 3: "load [Some ?I, Some inf16] 1 0 = f32_of_nat 1" "load [Some ?I, Some inf16] 1 5 = f32_of_nat 6"
    by (simp_all add: load_def buf_def inf16_def seq16_def)
  have 4: "NaN \<noteq> f32_of_nat 1" "NaN \<noteq> f32_of_nat 6" by (simp_all add: f32_eval)
  show ?thesis using 1 2 3 4 by (simp add: h0)
qed

text \<open>A negative zero does not come back either: the sum starts from \<open>+0\<close>.\<close>

lemma identity_multiply_negative_zero: "0 + 1 * Finite True 0 (- 149) = (0::float32)"
  by (simp add: f32_eval)


text \<open>
  C5, amended. For every \<open>N\<close> whose 16 elements are finite: if \<open>M\<close> is in the identity
  state then \<^verbatim>\<open>M.multiply(N)\<close> leaves \<open>M\<close> holding \<open>N\<close>'s element values and
  \<^verbatim>\<open>N.multiply(M)\<close> leaves \<open>N\<close>'s element values unchanged, a negative zero becoming the
  positive zero; where \<open>N\<close> has no negative zero the values are exactly \<open>N\<close>'s.
\<close>

theorem identity_multiply_finite:
  assumes "buf h (m this) = Some [1,0,0,0, 0,1,0,0, 0,0,1,0, 0,0,0,1]"
    and "buf h (m other) = Some N" and "length N = 16"
    and "\<forall>x\<in>set N. is_finite x \<and> valid x" and "length junk = 16"
  shows "buf (multiply junk this other h) (m this) = Some (map plus_zero N) \<and>
         buf (multiply junk other this h) (m other) = Some (map plus_zero N) \<and>
         (Finite True 0 (- 149) \<notin> set N \<longrightarrow> map plus_zero N = N)"
proof -
  from assms(4) have f: "\<forall>x\<in>set N. fin x" by (simp add: fin_def)
  have l: "buf (multiply junk this other h) (m this) = Some (map plus_zero N)"
    using multiply_result [OF assms(1,2) _ assms(5), of "m this"]
    by (simp add: identity_product(1) [OF assms(3) f])
  have r: "buf (multiply junk other this h) (m other) = Some (map plus_zero N)"
    using multiply_result [OF assms(2,1,3,5), of "m other"]
    by (simp add: identity_product(2) [OF assms(3) f])
  have "Finite True 0 (- 149) \<notin> set N \<longrightarrow> map plus_zero N = N"
    by (auto simp: plus_zero_def intro: map_idI)
  with l r show ?thesis by simp
qed

theorem identity_multiply_finite_witness:
  "buf [Some ident16, Some seq16] (m \<lparr>m = 0\<rparr>) = Some [1,0,0,0, 0,1,0,0, 0,0,1,0, 0,0,0,1] \<and>
   buf [Some ident16, Some seq16] (m \<lparr>m = 1\<rparr>) = Some seq16 \<and> length seq16 = 16 \<and>
   list_all (\<lambda>x. is_finite x \<and> valid x) seq16 \<and> length junk16 = 16 \<and>
   buf (multiply junk16 \<lparr>m = 0\<rparr> \<lparr>m = 1\<rparr> [Some ident16, Some seq16]) (m \<lparr>m = 0\<rparr>) = Some seq16 \<and>
   buf (multiply junk16 \<lparr>m = 1\<rparr> \<lparr>m = 0\<rparr> [Some ident16, Some seq16]) (m \<lparr>m = 1\<rparr>) = Some seq16"
proof -
  have h: "buf [Some ident16, Some seq16] (m \<lparr>m = 0\<rparr>) = Some [1,0,0,0, 0,1,0,0, 0,0,1,0, 0,0,0,1]"
    "buf [Some ident16, Some seq16] (m \<lparr>m = 1\<rparr>) = Some seq16" "length seq16 = 16"
    by (simp_all add: buf_def ident16_def seq16_def)
  have v: "list_all (\<lambda>x. is_finite x \<and> valid x) seq16"
    by (simp add: seq16_def f32_eval)
  then have v': "\<forall>x\<in>set seq16. is_finite x \<and> valid x" by (simp add: list_all_iff)
  have j: "length junk16 = 16" by (simp add: junk16_def)
  have z: "Finite True 0 (- 149) \<notin> set seq16" by (simp add: seq16_def f32_eval)
  note t = identity_multiply_finite [OF h v' j]
  from t z have "map plus_zero seq16 = seq16" by blast
  with t h v j show ?thesis by simp
qed

subsection \<open>getDeterminant\<close>

text \<open>
  C2. \<^verbatim>\<open>getDeterminant()\<close> returns the cofactor expansion along the first row of the
  upper-left 3x3 block (elements 0, 1, 2, 4, 5, 6, 8, 9, 10), leaves the store as it is,
  and returns the same on every matrix with the same nine elements, whatever the fourth
  row and column hold.
\<close>

theorem getDeterminant_cofactor:
  assumes "buf h (m this) = Some M" and "length M = 16"
  shows "fst (getDeterminant this h) =
           cofactor_det3 (M ! 0) (M ! 1) (M ! 2) (M ! 4) (M ! 5) (M ! 6) (M ! 8) (M ! 9) (M ! 10) \<and>
         snd (getDeterminant this h) = h \<and>
         (\<forall>h' M'. buf h' (m this) = Some M' \<and> length M' = 16 \<and>
                  (\<forall>i\<in>{0, 1, 2, 4, 5, 6, 8, 9, 10}. M' ! i = M ! i) \<longrightarrow>
                  fst (getDeterminant this h') = fst (getDeterminant this h))"
  using assms by (simp add: getDeterminant_def Let_def load_live cofactor_det3_def det2_def)

theorem getDeterminant_cofactor_witness:
  "buf [Some det25] (m \<lparr>m = 0\<rparr>) = Some det25 \<and> length det25 = 16 \<and>
   fst (getDeterminant \<lparr>m = 0\<rparr> [Some det25]) = f32_of_nat 25 \<and>
   snd (getDeterminant \<lparr>m = 0\<rparr> [Some det25]) = [Some det25] \<and>
   buf [Some det25'] (m \<lparr>m = 0\<rparr>) = Some det25' \<and> length det25' = 16 \<and>
   fst (getDeterminant \<lparr>m = 0\<rparr> [Some det25']) = fst (getDeterminant \<lparr>m = 0\<rparr> [Some det25])"
proof -
  have h: "buf [Some det25] (m \<lparr>m = 0\<rparr>) = Some det25" "length det25 = 16"
    by (simp_all add: buf_def det25_def)
  have h': "buf [Some det25'] (m \<lparr>m = 0\<rparr>) = Some det25' \<and> length det25' = 16 \<and>
      (\<forall>i\<in>{0, 1, 2, 4, 5, 6, 8, 9, 10}. det25' ! i = det25 ! i)"
    by (simp add: buf_def det25_def det25'_def)
  note t = getDeterminant_cofactor [OF h]
  have "cofactor_det3 (det25 ! 0) (det25 ! 1) (det25 ! 2) (det25 ! 4) (det25 ! 5) (det25 ! 6)
          (det25 ! 8) (det25 ! 9) (det25 ! 10) = f32_of_nat 25"
    by (simp add: cofactor_det3_def det2_def det25_def f32_eval)
  then show ?thesis
    using h h' t [THEN conjunct1] t [THEN conjunct2, THEN conjunct1]
      t [THEN conjunct2, THEN conjunct2, rule_format, OF h']
    by simp
qed


lemma getDeterminant_value:
  assumes "buf h (m this) = Some M"
  shows "fst (getDeterminant this h) =
    cofactor_det3 (M ! 0) (M ! 1) (M ! 2) (M ! 4) (M ! 5) (M ! 6) (M ! 8) (M ! 9) (M ! 10)"
  by (simp add: getDeterminant_def Let_def load_live [OF assms] cofactor_det3_def det2_def)



lemma getDeterminant_finite:
  assumes "buf h (m this) = Some M"
    and "\<forall>i\<in>{0, 1, 2, 4, 5, 6, 8, 9, 10}. is_finite (M ! i) \<and> \<bar>valof (M ! i)\<bar> \<le> 2 ^ 30"
  shows "is_finite (fst (getDeterminant this h))"
proof -
  have b: "bounded (M ! i) (2 ^ 30)" if "i \<in> {0, 1, 2, 4, 5, 6, 8, 9, 10}" for i
    using assms(2) that unfolding bounded_def by blast
  show ?thesis
    unfolding getDeterminant_value [OF assms(1)]
    by (rule bounded_cofactor_det3; rule b; simp)
qed




subsection \<open>Associativity\<close>

text \<open>
  \<open>(A B) C\<close> is \<^verbatim>\<open>A.multiply(B); A.multiply(C)\<close> and \<open>A (B C)\<close> is
  \<^verbatim>\<open>B.multiply(C); A.multiply(B)\<close>, both from the same store and both read in \<open>A\<close>.
\<close>

lemma big_times_big:
  "product big_diag16 big_diag16 =
     [Infinity False, 0, 0, 0,  0, Infinity False, 0, 0,  0, 0, Infinity False, 0,  0, 0, 0, Infinity False]"
  unfolding product_def row_col_sum_def upt4 upt16
  by (simp add: big_diag16_def f32_eval)

lemma inf_times_small:
  "product [Infinity False, 0, 0, 0,  0, Infinity False, 0, 0,  0, 0, Infinity False, 0,  0, 0, 0, Infinity False]
     small_diag16 =
     [Infinity False, NaN, NaN, NaN,  NaN, Infinity False, NaN, NaN,
      NaN, NaN, Infinity False, NaN,  NaN, NaN, NaN, Infinity False]"
  unfolding product_def row_col_sum_def upt4 upt16
  by (simp add: small_diag16_def f32_eval)

lemma big_times_small:
  "product big_diag16 small_diag16 = [1, 0, 0, 0,  0, 1, 0, 0,  0, 0, 1, 0,  0, 0, 0, 1]"
  unfolding product_def row_col_sum_def upt4 upt16
  by (simp add: big_diag16_def small_diag16_def f32_eval)

lemma big_times_identity:
  "product big_diag16 [1, 0, 0, 0,  0, 1, 0, 0,  0, 0, 1, 0,  0, 0, 0, 1] = big_diag16"
  unfolding product_def row_col_sum_def upt4 upt16
  by (simp add: big_diag16_def f32_eval)

lemma diagonal_products:
  "product twos16 threes16 =
     [f32_of_nat 6, 0, 0, 0,  0, f32_of_nat 6, 0, 0,  0, 0, f32_of_nat 6, 0,  0, 0, 0, f32_of_nat 6]"
  "product threes16 twos16 =
     [f32_of_nat 6, 0, 0, 0,  0, f32_of_nat 6, 0, 0,  0, 0, f32_of_nat 6, 0,  0, 0, 0, f32_of_nat 6]"
  "product twos16 twos16 =
     [f32_of_nat 4, 0, 0, 0,  0, f32_of_nat 4, 0, 0,  0, 0, f32_of_nat 4, 0,  0, 0, 0, f32_of_nat 4]"
  "product [f32_of_nat 6, 0, 0, 0,  0, f32_of_nat 6, 0, 0,  0, 0, f32_of_nat 6, 0,  0, 0, 0, f32_of_nat 6]
           [f32_of_nat 6, 0, 0, 0,  0, f32_of_nat 6, 0, 0,  0, 0, f32_of_nat 6, 0,  0, 0, 0, f32_of_nat 6] ! 0
     = f32_of_nat 36"
  "product twos16
           [f32_of_nat 6, 0, 0, 0,  0, f32_of_nat 6, 0, 0,  0, 0, f32_of_nat 6, 0,  0, 0, 0, f32_of_nat 6] ! 0
     = f32_of_nat 12"
  "product [f32_of_nat 4, 0, 0, 0,  0, f32_of_nat 4, 0, 0,  0, 0, f32_of_nat 4, 0,  0, 0, 0, f32_of_nat 4]
           threes16 ! 0
     = f32_of_nat 12"
  unfolding product_def row_col_sum_def upt4 upt16
  by (simp_all add: twos16_def threes16_def f32_eval)

lemma multiply_twice_finite:
  assumes "buf h (m a) = Some A" and "buf h (m b) = Some B" and "buf h (m c) = Some C"
    and "length A = 16" and "length B = 16" and "length C = 16"
    and "m a \<noteq> m b" and "m a \<noteq> m c"
    and "length j1 = 16" and "length j2 = 16" and "length j3 = 16" and "length j4 = 16"
    and "\<forall>x\<in>set (A @ B @ C). is_finite x \<and> \<bar>valof x\<bar> \<le> 2 ^ 30"
    and "i < 16"
  shows "is_finite (load (multiply j2 a c (multiply j1 a b h)) (m a) i)"
    and "is_finite (load (multiply j4 a b (multiply j3 b c h)) (m a) i)"
proof -
  have left: "buf (multiply j2 a c (multiply j1 a b h)) (m a) = Some (product (product A B) C)"
    using two_multiplies(1) [OF assms(1,2,3,4,5,9,10)] assms(8) by simp
  have right: "buf (multiply j4 a b (multiply j3 b c h)) (m a) = Some (product A (product B C))"
    using two_multiplies(2) [OF assms(1,2,3,4,5,11,12)] assms(7) by simp
  have A: "bounded (A ! i) (2 ^ 30)" if "i < 16" for i
    using assms(13) assms(4) that unfolding bounded_def by (simp add: ball_Un)
  have B: "bounded (B ! i) (2 ^ 30)" if "i < 16" for i
    using assms(13) assms(5) that unfolding bounded_def by (simp add: ball_Un)
  have C: "bounded (C ! i) (2 ^ 30)" if "i < 16" for i
    using assms(13) assms(6) that unfolding bounded_def by (simp add: ball_Un)
  show "is_finite (load (multiply j2 a c (multiply j1 a b h)) (m a) i)"
    unfolding load_live [OF left] by (rule products_finite(1) [OF A B C assms(14)])
  show "is_finite (load (multiply j4 a b (multiply j3 b c h)) (m a) i)"
    unfolding load_live [OF right] by (rule products_finite(2) [OF A B C assms(14)])
qed

lemma product_at: "i < 16 \<Longrightarrow> product A B ! i = row_col_sum A B (i div 4) (i mod 4)"
  by (simp add: product_def)

lemma frac_products:
  "product (product frac_a16 frac_b16) frac_c16 ! 0 = Finite False 16139683 (- 25)"
  "product frac_a16 (product frac_b16 frac_c16) ! 0 = Finite False 16139682 (- 25)"
  by (simp_all add: product_at row_col_sum_def upt4 frac_a16_def frac_b16_def frac_c16_def f32_eval)

text \<open>
  C7, as stated, fails in two ways. Where an intermediate product overflows it fails by
  more than any tolerance: with \<open>A = B = 2\<^sup>1\<^sup>0\<^sup>0 I\<close> and \<open>C = 2\<^sup>-\<^sup>1\<^sup>0\<^sup>0 I\<close>, all elements finite,
  \<open>A B\<close> has \<open>+\<infinity>\<close> on the diagonal, so \<open>(A B) C\<close> has \<open>+\<infinity>\<close> in element 0 and NaN in
  element 1, while \<open>B C\<close> is the identity and \<open>A (B C)\<close> has \<open>2\<^sup>1\<^sup>0\<^sup>0\<close> in element 0 and \<open>0\<close>
  in element 1. And \<^verbatim>\<open>multiply\<close> overwrites its receiver, so the calls do not compute the
  two products where \<open>A\<close> is the same object as \<open>B\<close> or \<open>C\<close>: with \<open>A = 2 I\<close> in one buffer
  and \<open>3 I\<close> in another, if \<open>C\<close> is \<open>A\<close> and \<open>B = 3 I\<close> then \<^verbatim>\<open>A.multiply(B); A.multiply(C)\<close>
  leaves \<open>36\<close> in element 0 and \<^verbatim>\<open>B.multiply(C); A.multiply(B)\<close> leaves \<open>12\<close>; if
  \<open>B\<close> is \<open>A\<close> and \<open>C = 3 I\<close> then the first leaves \<open>12\<close> and the second \<open>36\<close>.
\<close>

theorem multiply_not_associative:
  "list_all (\<lambda>x. is_finite x \<and> valid x) (big_diag16 @ small_diag16) \<and>
   load (multiply junk16 \<lparr>m = 0\<rparr> \<lparr>m = 2\<rparr> (multiply junk16 \<lparr>m = 0\<rparr> \<lparr>m = 1\<rparr>
           [Some big_diag16, Some big_diag16, Some small_diag16])) (m \<lparr>m = 0\<rparr>) 0 = Infinity False \<and>
   load (multiply junk16 \<lparr>m = 0\<rparr> \<lparr>m = 1\<rparr> (multiply junk16 \<lparr>m = 1\<rparr> \<lparr>m = 2\<rparr>
           [Some big_diag16, Some big_diag16, Some small_diag16])) (m \<lparr>m = 0\<rparr>) 0 = Finite False 8388608 77 \<and>
   load (multiply junk16 \<lparr>m = 0\<rparr> \<lparr>m = 2\<rparr> (multiply junk16 \<lparr>m = 0\<rparr> \<lparr>m = 1\<rparr>
           [Some big_diag16, Some big_diag16, Some small_diag16])) (m \<lparr>m = 0\<rparr>) 1 = NaN \<and>
   load (multiply junk16 \<lparr>m = 0\<rparr> \<lparr>m = 1\<rparr> (multiply junk16 \<lparr>m = 1\<rparr> \<lparr>m = 2\<rparr>
           [Some big_diag16, Some big_diag16, Some small_diag16])) (m \<lparr>m = 0\<rparr>) 1 = 0 \<and>
   load (multiply junk16 \<lparr>m = 0\<rparr> \<lparr>m = 0\<rparr> (multiply junk16 \<lparr>m = 0\<rparr> \<lparr>m = 1\<rparr>
           [Some twos16, Some threes16])) (m \<lparr>m = 0\<rparr>) 0 = f32_of_nat 36 \<and>
   load (multiply junk16 \<lparr>m = 0\<rparr> \<lparr>m = 1\<rparr> (multiply junk16 \<lparr>m = 1\<rparr> \<lparr>m = 0\<rparr>
           [Some twos16, Some threes16])) (m \<lparr>m = 0\<rparr>) 0 = f32_of_nat 12 \<and>
   load (multiply junk16 \<lparr>m = 0\<rparr> \<lparr>m = 1\<rparr> (multiply junk16 \<lparr>m = 0\<rparr> \<lparr>m = 0\<rparr>
           [Some twos16, Some threes16])) (m \<lparr>m = 0\<rparr>) 0 = f32_of_nat 12 \<and>
   f32_of_nat 36 \<noteq> f32_of_nat 12"
proof -
  let ?h = "[Some big_diag16, Some big_diag16, Some small_diag16]"
  have b: "buf ?h (m \<lparr>m = 0\<rparr>) = Some big_diag16" "buf ?h (m \<lparr>m = 1\<rparr>) = Some big_diag16"
    "buf ?h (m \<lparr>m = 2\<rparr>) = Some small_diag16"
    by (simp_all add: buf_def)
  have l: "length big_diag16 = 16" "length junk16 = 16"
    by (simp_all add: big_diag16_def junk16_def)
  have left: "buf (multiply junk16 \<lparr>m = 0\<rparr> \<lparr>m = 2\<rparr> (multiply junk16 \<lparr>m = 0\<rparr> \<lparr>m = 1\<rparr> ?h)) (m \<lparr>m = 0\<rparr>)
      = Some [Infinity False, NaN, NaN, NaN,  NaN, Infinity False, NaN, NaN,
              NaN, NaN, Infinity False, NaN,  NaN, NaN, NaN, Infinity False]"
    using two_multiplies(1) [OF b l(1,1,2,2)] by (simp add: big_times_big inf_times_small)
  have right: "buf (multiply junk16 \<lparr>m = 0\<rparr> \<lparr>m = 1\<rparr> (multiply junk16 \<lparr>m = 1\<rparr> \<lparr>m = 2\<rparr> ?h)) (m \<lparr>m = 0\<rparr>)
      = Some big_diag16"
    using two_multiplies(2) [OF b l(1,1,2,2)] by (simp add: big_times_small big_times_identity)
  have v: "list_all (\<lambda>x. is_finite x \<and> valid x) (big_diag16 @ small_diag16)"
    by (simp add: big_diag16_def small_diag16_def zero_float32_def)
  have L0: "load (multiply junk16 \<lparr>m = 0\<rparr> \<lparr>m = 2\<rparr> (multiply junk16 \<lparr>m = 0\<rparr> \<lparr>m = 1\<rparr> ?h)) (m \<lparr>m = 0\<rparr>) 0
      = Infinity False"
    unfolding load_live [OF left] by simp
  have L1: "load (multiply junk16 \<lparr>m = 0\<rparr> \<lparr>m = 2\<rparr> (multiply junk16 \<lparr>m = 0\<rparr> \<lparr>m = 1\<rparr> ?h)) (m \<lparr>m = 0\<rparr>) 1
      = NaN"
    unfolding load_live [OF left] by simp
  have R0: "load (multiply junk16 \<lparr>m = 0\<rparr> \<lparr>m = 1\<rparr> (multiply junk16 \<lparr>m = 1\<rparr> \<lparr>m = 2\<rparr> ?h)) (m \<lparr>m = 0\<rparr>) 0
      = Finite False 8388608 77"
    unfolding load_live [OF right] by (simp add: big_diag16_def)
  have R1: "load (multiply junk16 \<lparr>m = 0\<rparr> \<lparr>m = 1\<rparr> (multiply junk16 \<lparr>m = 1\<rparr> \<lparr>m = 2\<rparr> ?h)) (m \<lparr>m = 0\<rparr>) 1
      = 0"
    unfolding load_live [OF right] by (simp add: big_diag16_def)
  let ?g = "[Some twos16, Some threes16]"
  let ?six = "[f32_of_nat 6, 0, 0, 0,  0, f32_of_nat 6, 0, 0,  0, 0, f32_of_nat 6, 0,  0, 0, 0, f32_of_nat 6]"
  let ?four = "[f32_of_nat 4, 0, 0, 0,  0, f32_of_nat 4, 0, 0,  0, 0, f32_of_nat 4, 0,  0, 0, 0, f32_of_nat 4]"
  have g: "buf ?g (m \<lparr>m = 0\<rparr>) = Some twos16" "buf ?g (m \<lparr>m = 1\<rparr>) = Some threes16"
    by (simp_all add: buf_def)
  have lg: "length twos16 = 16" "length threes16 = 16" "length ?six = 16" "length ?four = 16"
    by (simp_all add: twos16_def threes16_def)
  have ab: "buf (multiply junk16 \<lparr>m = 0\<rparr> \<lparr>m = 1\<rparr> ?g) (m \<lparr>m = 0\<rparr>) = Some ?six"
    using multiply_result [OF g(1,2) lg(1) l(2), of "m \<lparr>m = 0\<rparr>"] by (simp add: diagonal_products)
  have ba: "buf (multiply junk16 \<lparr>m = 1\<rparr> \<lparr>m = 0\<rparr> ?g) (m \<lparr>m = 1\<rparr>) = Some ?six"
    "buf (multiply junk16 \<lparr>m = 1\<rparr> \<lparr>m = 0\<rparr> ?g) (m \<lparr>m = 0\<rparr>) = Some twos16"
    using multiply_result [OF g(2,1) lg(2) l(2), of "m \<lparr>m = 1\<rparr>"]
      multiply_result [OF g(2,1) lg(2) l(2), of "m \<lparr>m = 0\<rparr>"]
    by (simp_all add: diagonal_products buf_def)
  have aa: "buf (multiply junk16 \<lparr>m = 0\<rparr> \<lparr>m = 0\<rparr> ?g) (m \<lparr>m = 0\<rparr>) = Some ?four"
    "buf (multiply junk16 \<lparr>m = 0\<rparr> \<lparr>m = 0\<rparr> ?g) (m \<lparr>m = 1\<rparr>) = Some threes16"
    using multiply_result [OF g(1,1) lg(1) l(2), of "m \<lparr>m = 0\<rparr>"]
      multiply_result [OF g(1,1) lg(1) l(2), of "m \<lparr>m = 1\<rparr>"]
    by (simp_all add: diagonal_products buf_def)
  have X1: "load (multiply junk16 \<lparr>m = 0\<rparr> \<lparr>m = 0\<rparr> (multiply junk16 \<lparr>m = 0\<rparr> \<lparr>m = 1\<rparr> ?g)) (m \<lparr>m = 0\<rparr>) 0
      = f32_of_nat 36"
    unfolding load_def multiply_result [OF ab ab lg(3) l(2)] by (simp add: diagonal_products)
  have X2: "load (multiply junk16 \<lparr>m = 0\<rparr> \<lparr>m = 1\<rparr> (multiply junk16 \<lparr>m = 1\<rparr> \<lparr>m = 0\<rparr> ?g)) (m \<lparr>m = 0\<rparr>) 0
      = f32_of_nat 12"
    unfolding load_def multiply_result [OF ba(2,1) lg(1) l(2)] by (simp add: diagonal_products)
  have X3: "load (multiply junk16 \<lparr>m = 0\<rparr> \<lparr>m = 1\<rparr> (multiply junk16 \<lparr>m = 0\<rparr> \<lparr>m = 0\<rparr> ?g)) (m \<lparr>m = 0\<rparr>) 0
      = f32_of_nat 12"
    unfolding load_def multiply_result [OF aa(1,2) lg(4) l(2)] by (simp add: diagonal_products)
  have ne: "f32_of_nat 36 \<noteq> f32_of_nat 12" by (simp add: f32_eval)
  show ?thesis
    by (intro conjI v L0 R0 L1 R1 X1 X2 X3 ne)
qed

text \<open>
  C7, amended. For every three matrices \<open>A\<close>, \<open>B\<close>, \<open>C\<close>, where \<open>A\<close> is not the same object
  as \<open>B\<close> or \<open>C\<close>, the products \<open>(A B) C\<close> and \<open>A (B C)\<close> computed by successive \<^verbatim>\<open>multiply\<close>
  calls are equal element by element within floating-point tolerance wherever the element
  is finite in both, that is, wherever neither computation of it overflows or meets an
  infinite or NaN element: the two values of the element in row \<open>r\<close> and column \<open>c\<close> differ
  by at most \<open>2\<^sup>-\<^sup>1\<^sup>8\<close> of that element of the product \<open>|A| |B| |C|\<close> of the matrices of
  magnitudes, plus \<open>2\<^sup>-\<^sup>1\<^sup>3\<^sup>9\<close> times one plus the magnitudes of row \<open>r\<close> of \<open>A\<close> and of
  column \<open>c\<close> of \<open>C\<close> for intermediate results that underflow. Every element is finite in
  both, by \<open>multiply_twice_finite\<close>, at least wherever the elements of the three matrices
  are finite and of magnitude at most \<open>2\<^sup>3\<^sup>0\<close>.
\<close>

theorem multiply_associative_within_tolerance:
  assumes "buf h (m a) = Some A" and "buf h (m b) = Some B" and "buf h (m c) = Some C"
    and "length A = 16" and "length B = 16" and "length C = 16"
    and "m a \<noteq> m b" and "m a \<noteq> m c"
    and "length j1 = 16" and "length j2 = 16" and "length j3 = 16" and "length j4 = 16"
    and "row < 4" and "col < 4"
    and "is_finite (load (multiply j2 a c (multiply j1 a b h)) (m a) (row*4 + col))"
    and "is_finite (load (multiply j4 a b (multiply j3 b c h)) (m a) (row*4 + col))"
  shows "\<bar>valof (load (multiply j2 a c (multiply j1 a b h)) (m a) (row*4 + col))
          - valof (load (multiply j4 a b (multiply j3 b c h)) (m a) (row*4 + col))\<bar>
         \<le> assoc_tolerance A B C row col"
proof -
  have left: "buf (multiply j2 a c (multiply j1 a b h)) (m a) = Some (product (product A B) C)"
    using two_multiplies(1) [OF assms(1,2,3,4,5,9,10)] assms(8) by simp
  have right: "buf (multiply j4 a b (multiply j3 b c h)) (m a) = Some (product A (product B C))"
    using two_multiplies(2) [OF assms(1,2,3,4,5,11,12)] assms(7) by simp
  note f = assms(15,16) [unfolded load_live [OF left] load_live [OF right]]
  show ?thesis
    unfolding load_live [OF left] load_live [OF right]
    by (rule product_entries_tolerance [OF assms(4,5,6,13,14) f])
qed

theorem multiply_associative_within_tolerance_witness:
  "buf [Some frac_a16, Some frac_b16, Some frac_c16] (m \<lparr>m = 0\<rparr>) = Some frac_a16 \<and>
   buf [Some frac_a16, Some frac_b16, Some frac_c16] (m \<lparr>m = 1\<rparr>) = Some frac_b16 \<and>
   buf [Some frac_a16, Some frac_b16, Some frac_c16] (m \<lparr>m = 2\<rparr>) = Some frac_c16 \<and>
   length frac_a16 = 16 \<and> length frac_b16 = 16 \<and> length frac_c16 = 16 \<and>
   m \<lparr>m = 0\<rparr> \<noteq> m \<lparr>m = 1\<rparr> \<and> m \<lparr>m = 0\<rparr> \<noteq> m \<lparr>m = 2\<rparr> \<and> length junk16 = 16 \<and>
   (0::nat) < 4 \<and>
   is_finite (load (multiply junk16 \<lparr>m = 0\<rparr> \<lparr>m = 2\<rparr> (multiply junk16 \<lparr>m = 0\<rparr> \<lparr>m = 1\<rparr>
          [Some frac_a16, Some frac_b16, Some frac_c16])) (m \<lparr>m = 0\<rparr>) (0*4 + 0)) \<and>
   is_finite (load (multiply junk16 \<lparr>m = 0\<rparr> \<lparr>m = 1\<rparr> (multiply junk16 \<lparr>m = 1\<rparr> \<lparr>m = 2\<rparr>
          [Some frac_a16, Some frac_b16, Some frac_c16])) (m \<lparr>m = 0\<rparr>) (0*4 + 0)) \<and>
   load (multiply junk16 \<lparr>m = 0\<rparr> \<lparr>m = 2\<rparr> (multiply junk16 \<lparr>m = 0\<rparr> \<lparr>m = 1\<rparr>
          [Some frac_a16, Some frac_b16, Some frac_c16])) (m \<lparr>m = 0\<rparr>) (0*4 + 0)
     = Finite False 16139683 (- 25) \<and>
   load (multiply junk16 \<lparr>m = 0\<rparr> \<lparr>m = 1\<rparr> (multiply junk16 \<lparr>m = 1\<rparr> \<lparr>m = 2\<rparr>
          [Some frac_a16, Some frac_b16, Some frac_c16])) (m \<lparr>m = 0\<rparr>) (0*4 + 0)
     = Finite False 16139682 (- 25) \<and>
   \<bar>valof (load (multiply junk16 \<lparr>m = 0\<rparr> \<lparr>m = 2\<rparr> (multiply junk16 \<lparr>m = 0\<rparr> \<lparr>m = 1\<rparr>
          [Some frac_a16, Some frac_b16, Some frac_c16])) (m \<lparr>m = 0\<rparr>) (0*4 + 0))
    - valof (load (multiply junk16 \<lparr>m = 0\<rparr> \<lparr>m = 1\<rparr> (multiply junk16 \<lparr>m = 1\<rparr> \<lparr>m = 2\<rparr>
          [Some frac_a16, Some frac_b16, Some frac_c16])) (m \<lparr>m = 0\<rparr>) (0*4 + 0))\<bar>
     \<le> assoc_tolerance frac_a16 frac_b16 frac_c16 0 0"
proof -
  let ?h = "[Some frac_a16, Some frac_b16, Some frac_c16]"
  have b: "buf ?h (m \<lparr>m = 0\<rparr>) = Some frac_a16" "buf ?h (m \<lparr>m = 1\<rparr>) = Some frac_b16"
    "buf ?h (m \<lparr>m = 2\<rparr>) = Some frac_c16"
    by (simp_all add: buf_def)
  have l: "length frac_a16 = 16" "length frac_b16 = 16" "length frac_c16 = 16"
    by (simp_all add: frac_a16_def frac_b16_def frac_c16_def)
  have n: "m \<lparr>m = 0\<rparr> \<noteq> m \<lparr>m = 1\<rparr>" "m \<lparr>m = 0\<rparr> \<noteq> m \<lparr>m = 2\<rparr>" by simp_all
  have j: "length junk16 = 16" by (simp add: junk16_def)
  have i: "(0::nat) < 4" by simp
  have left: "buf (multiply junk16 \<lparr>m = 0\<rparr> \<lparr>m = 2\<rparr> (multiply junk16 \<lparr>m = 0\<rparr> \<lparr>m = 1\<rparr> ?h)) (m \<lparr>m = 0\<rparr>)
      = Some (product (product frac_a16 frac_b16) frac_c16)"
    using two_multiplies(1) [OF b l(1,2) j j] by simp
  have right: "buf (multiply junk16 \<lparr>m = 0\<rparr> \<lparr>m = 1\<rparr> (multiply junk16 \<lparr>m = 1\<rparr> \<lparr>m = 2\<rparr> ?h)) (m \<lparr>m = 0\<rparr>)
      = Some (product frac_a16 (product frac_b16 frac_c16))"
    using two_multiplies(2) [OF b l(1,2) j j] by simp
  have L: "load (multiply junk16 \<lparr>m = 0\<rparr> \<lparr>m = 2\<rparr> (multiply junk16 \<lparr>m = 0\<rparr> \<lparr>m = 1\<rparr> ?h)) (m \<lparr>m = 0\<rparr>) (0*4 + 0)
      = Finite False 16139683 (- 25)"
    unfolding load_live [OF left] using frac_products(1) by simp
  have R: "load (multiply junk16 \<lparr>m = 0\<rparr> \<lparr>m = 1\<rparr> (multiply junk16 \<lparr>m = 1\<rparr> \<lparr>m = 2\<rparr> ?h)) (m \<lparr>m = 0\<rparr>) (0*4 + 0)
      = Finite False 16139682 (- 25)"
    unfolding load_live [OF right] using frac_products(2) by simp
  have f: "is_finite (load (multiply junk16 \<lparr>m = 0\<rparr> \<lparr>m = 2\<rparr> (multiply junk16 \<lparr>m = 0\<rparr> \<lparr>m = 1\<rparr> ?h))
        (m \<lparr>m = 0\<rparr>) (0*4 + 0))"
    "is_finite (load (multiply junk16 \<lparr>m = 0\<rparr> \<lparr>m = 1\<rparr> (multiply junk16 \<lparr>m = 1\<rparr> \<lparr>m = 2\<rparr> ?h))
        (m \<lparr>m = 0\<rparr>) (0*4 + 0))"
    unfolding L R by simp_all
  note t = multiply_associative_within_tolerance [OF b l n j j j j i i f]
  show ?thesis
    by (intro conjI b l n j i f L R t)
qed

subsection \<open>main\<close>

lemma main_multiplied_heap:
  assumes "length junkA = 16" "length junkB = 16" "length junkT = 16"
  shows "main_multiplied junkA junkB junkT h =
     (\<lparr>m = length h\<rparr>, \<lparr>m = Suc (length h)\<rparr>,
      h @ [Some (product [1,0,0,0, 0,1,0,0, 0,0,1,0, f32_of_nat 10, f32_of_nat 5, 0, 1]
                         [1,0,0,0, 0,1,0,0, 0,0,1,0, f32_of_nat 2, f32_of_nat 3, 1, 1]),
           Some [1,0,0,0, 0,1,0,0, 0,0,1,0, f32_of_nat 2, f32_of_nat 3, 1, 1],
           None])"
proof -
  let ?I = "[1,0,0,0, 0,1,0,0, 0,0,1,0, 0,0,0,1::float32]"
  let ?A = "[1,0,0,0, 0,1,0,0, 0,0,1,0, f32_of_nat 10, f32_of_nat 5, 0, 1]"
  let ?B = "[1,0,0,0, 0,1,0,0, 0,0,1,0, f32_of_nat 2, f32_of_nat 3, 1, 1]"
  let ?a = "\<lparr>m = length h\<rparr>" and ?b = "\<lparr>m = Suc (length h)\<rparr>"
  let ?h2 = "h @ [Some ?I, Some ?I]"
  have n: "Matrix4_new junkA h = (?a, h @ [Some ?I])"
    "Matrix4_new junkB (h @ [Some ?I]) = (?b, ?h2)"
    using assms by (simp_all add: Matrix4_new_heap)
  have "buf ?h2 (m ?a) = Some ?I" by (simp add: buf_def nth_append)
  from setTranslation_heap [OF this]
  have h3: "setTranslation ?a (f32_of_nat 10) (f32_of_nat 5) (0) ?h2 = h @ [Some ?A, Some ?I]"
    by (simp add: list_update_append)
  have "buf (h @ [Some ?A, Some ?I]) (m ?b) = Some ?I" by (simp add: buf_def nth_append)
  from setTranslation_heap [OF this]
  have h4: "setTranslation ?b (f32_of_nat 2) (f32_of_nat 3) 1 (h @ [Some ?A, Some ?I]) = h @ [Some ?A, Some ?B]"
    by (simp add: list_update_append)
  have "buf (h @ [Some ?A, Some ?B]) (m ?a) = Some ?A" "buf (h @ [Some ?A, Some ?B]) (m ?b) = Some ?B"
    by (simp_all add: buf_def nth_append)
  from multiply_heap [OF this _ assms(3)]
  have h5: "multiply junkT ?a ?b (h @ [Some ?A, Some ?B]) = h @ [Some (product ?A ?B), Some ?B, None]"
    by (simp add: list_update_append)
  show ?thesis
    by (simp add: main_multiplied_def n h3 h4 h5)
qed

lemma main_product:
  "product [1,0,0,0, 0,1,0,0, 0,0,1,0, f32_of_nat 10, f32_of_nat 5, 0, 1]
           [1,0,0,0, 0,1,0,0, 0,0,1,0, f32_of_nat 2, f32_of_nat 3, 1, 1]
   = [1,0,0,0, 0,1,0,0, 0,0,1,0, f32_of_nat 12, f32_of_nat 8, 1, 1]"
  unfolding product_def row_col_sum_def upt4 upt16
  by (simp add: f32_eval)

text \<open>
  C8. Starting from two freshly constructed matrices \<open>A\<close> and \<open>B\<close>, after
  \<^verbatim>\<open>A.setTranslation(10, 5, 0)\<close>, \<^verbatim>\<open>B.setTranslation(2, 3, 1)\<close> and \<^verbatim>\<open>A.multiply(B)\<close> the
  elements 12, 13, 14 of \<open>A\<close> are 12, 8, 1 and \<^verbatim>\<open>A.getDeterminant()\<close> returns 1, which is
  what \<^verbatim>\<open>main\<close> prints; in binary32 arithmetic, every step being exact.
\<close>

theorem main_translation_and_determinant:
  assumes "length junkA = 16" and "length junkB = 16" and "length junkT = 16"
  shows "(case main_multiplied junkA junkB junkT h of (matA, matB, h5) \<Rightarrow>
            load h5 (m matA) 12 = f32_of_nat 12 \<and>
            load h5 (m matA) 13 = f32_of_nat 8 \<and>
            load h5 (m matA) 14 = 1 \<and>
            fst (getDeterminant matA h5) = 1) \<and>
         fst (main junkA junkB junkT h) = 1"
proof -
  let ?P = "[1,0,0,0, 0,1,0,0, 0,0,1,0, f32_of_nat 12, f32_of_nat 8, 1, 1::float32]"
  let ?B = "[1,0,0,0, 0,1,0,0, 0,0,1,0, f32_of_nat 2, f32_of_nat 3, 1, 1::float32]"
  have s: "main_multiplied junkA junkB junkT h =
      (\<lparr>m = length h\<rparr>, \<lparr>m = Suc (length h)\<rparr>, h @ [Some ?P, Some ?B, None])"
    using main_multiplied_heap [OF assms, of h] by (simp add: main_product)
  have b: "buf (h @ [Some ?P, Some ?B, None]) (length h) = Some ?P" by (simp add: buf_def nth_append)
  have d: "fst (getDeterminant \<lparr>m = length h\<rparr> (h @ [Some ?P, Some ?B, None])) = 1"
    by (simp add: getDeterminant_def Let_def load_live [OF b]) (simp add: f32_eval)
  show ?thesis
    using d by (simp add: s main_def load_live [OF b] split_beta)
qed

theorem main_translation_and_determinant_witness:
  "length junk16 = 16 \<and>
   load (snd (snd (main_multiplied junk16 junk16 junk16 []))) (m (fst (main_multiplied junk16 junk16 junk16 []))) 12 = f32_of_nat 12 \<and>
   load (snd (snd (main_multiplied junk16 junk16 junk16 []))) (m (fst (main_multiplied junk16 junk16 junk16 []))) 13 = f32_of_nat 8 \<and>
   load (snd (snd (main_multiplied junk16 junk16 junk16 []))) (m (fst (main_multiplied junk16 junk16 junk16 []))) 14 = 1 \<and>
   fst (main junk16 junk16 junk16 []) = 1"
proof -
  have j: "length junk16 = 16" by (simp add: junk16_def)
  show ?thesis
    using j main_translation_and_determinant [OF j j j, of "[]"]
    by (simp add: split_beta)
qed


end
